theory Spec2Isabelle
  imports Main
begin

section \<open>Raw storage and the element type\<close>

text \<open>
  A slot of a storage block either holds no object (\<open>Raw\<close>: uninitialised or already
  destroyed memory) or a live, constructed element. A pointer into a block is the block's
  slot list together with an index; \<open>size_t\<close> is \<open>nat\<close> (a block of \<open>2^63\<close> elements
  cannot be allocated, so \<open>m_size * 2\<close> never wraps). The members \<open>buffer_\<close>,
  \<open>capacity_\<close>, \<open>data_\<close> and \<open>size_\<close> are the fields \<open>m_buffer\<close>, \<open>m_capacity\<close>,
  \<open>m_data\<close> and \<open>m_size\<close>: an Isabelle name cannot end in an underscore.
\<close>

datatype 'a slot = Raw | is_Live: Live 'a

text \<open>
  The template parameter \<open>T\<close> as the container sees it: the two type traits consulted by
  \<open>if constexpr\<close>, which of its special member functions throw (depending on the source
  value), the state a moved-from object is left in, and the result of value-initialisation
  (\<open>None\<close> when \<open>T()\<close> throws). With it come \<open>sizeof(T)\<close> and the free store the
  blocks of \<open>T\<close> are taken from: \<open>new_throws bytes\<close> says that \<open>operator new(bytes)\<close>
  throws \<open>std::bad_alloc\<close>.
\<close>

record 'a element =
  nothrow_move_constructible :: bool
  copy_constructible :: bool
  copy_ctor_throws :: "'a \<Rightarrow> bool"
  copy_assign_throws :: "'a \<Rightarrow> bool"
  move_ctor_throws :: "'a \<Rightarrow> bool"
  move_assign_throws :: "'a \<Rightarrow> bool"
  moved_from :: "'a \<Rightarrow> 'a"
  value_init :: "'a option"
  size_of :: nat
  new_throws :: "nat \<Rightarrow> bool"

text \<open>
  How a call ends: it returns (new state and return value), an exception propagates out
  of it (the state it leaves behind and the contents of the local block \<open>new_data\<close> at
  the moment \<open>~RawMemory\<close> released it, \<open>[]\<close> when the call had none), an \<open>assert\<close>
  fails, or it constructs an element past the end of the block it was given (undefined
  behaviour: on the machine a corrupted heap or a killed process).
\<close>

datatype ('s, 'r, 'a) outcome =
    Returned 's 'r
  | Threw 's "'a slot list"
  | AssertFailed
  | MemoryFault

record 'a RawMemory =
  m_buffer :: "'a slot list"
  m_capacity :: nat

record 'a Vector =
  m_data :: "'a RawMemory"
  m_size :: nat

text \<open>Reading a slot; outside the block there is no object to read.\<close>

definition slot_at :: "'a slot list \<Rightarrow> nat \<Rightarrow> 'a slot" where
  "slot_at buf i = (if i < length buf then buf ! i else Raw)"

text \<open>
  \<open>std::destroy_at(buf + i)\<close>: the slot holds no object afterwards. Running it on a slot
  that holds none, or one past the block, is undefined behaviour in C++; the model leaves
  the memory as it is there, which is what happens for a trivially destructible \<open>T\<close>.
\<close>

definition destroy_at :: "'a slot list \<Rightarrow> nat \<Rightarrow> 'a slot list" where
  "destroy_at buf i = (if i < length buf then buf[i := Raw] else buf)"

text \<open>\<open>std::destroy_n(buf + first, n)\<close>.\<close>

fun destroy_n :: "'a slot list \<Rightarrow> nat \<Rightarrow> nat \<Rightarrow> 'a slot list" where
  "destroy_n buf first 0 = buf"
| "destroy_n buf first (Suc n) = destroy_n (destroy_at buf first) (Suc first) n"

text \<open>
  Copy and move construction of one element from a source slot. \<open>None\<close> is a throw,
  which leaves the source as it was. A source slot without a live element has nothing to
  copy: the target stays raw. A move constructor declared \<open>noexcept\<close> lets no exception
  out.
\<close>

definition copy_construct :: "'a element \<Rightarrow> 'a slot \<Rightarrow> 'a slot option" where
  "copy_construct T s =
     (case s of Raw \<Rightarrow> Some Raw
      | Live x \<Rightarrow> if copy_ctor_throws T x then None else Some (Live x))"

definition move_construct :: "'a element \<Rightarrow> 'a slot \<Rightarrow> ('a slot \<times> 'a slot) option" where
  "move_construct T s =
     (case s of Raw \<Rightarrow> Some (Raw, Raw)
      | Live x \<Rightarrow>
          if \<not> nothrow_move_constructible T \<and> move_ctor_throws T x then None
          else Some (Live x, Live (moved_from T x)))"

text \<open>
  \<open>std::uninitialized_copy_n(src + i, n, dst + j)\<close>. \<open>Inr\<close> is the filled target. When
  a copy throws, the elements already constructed in the target are destroyed and the
  exception is rethrown: \<open>Inl\<close> is the target after that clean-up.
\<close>

fun uninitialized_copy_n ::
  "'a element \<Rightarrow> 'a slot list \<Rightarrow> nat \<Rightarrow> nat \<Rightarrow> 'a slot list \<Rightarrow> nat
     \<Rightarrow> 'a slot list + 'a slot list" where
  "uninitialized_copy_n T src i 0 dst j = Inr dst"
| "uninitialized_copy_n T src i (Suc n) dst j =
     (case copy_construct T (slot_at src i) of
        None \<Rightarrow> Inl dst
      | Some s \<Rightarrow>
          (case uninitialized_copy_n T src (Suc i) n (dst[j := s]) (Suc j) of
             Inl d \<Rightarrow> Inl (destroy_at d j)
           | Inr d \<Rightarrow> Inr d))"

text \<open>
  \<open>std::uninitialized_move_n(src + i, n, dst + j)\<close>: as above, but each source element
  is left moved-from, also when a later move throws. Both blocks are returned.
\<close>

fun uninitialized_move_n ::
  "'a element \<Rightarrow> 'a slot list \<Rightarrow> nat \<Rightarrow> nat \<Rightarrow> 'a slot list \<Rightarrow> nat
     \<Rightarrow> ('a slot list \<times> 'a slot list) + ('a slot list \<times> 'a slot list)" where
  "uninitialized_move_n T src i 0 dst j = Inr (src, dst)"
| "uninitialized_move_n T src i (Suc n) dst j =
     (case move_construct T (slot_at src i) of
        None \<Rightarrow> Inl (src, dst)
      | Some (s, r) \<Rightarrow>
          (case uninitialized_move_n T (src[i := r]) (Suc i) n (dst[j := s]) (Suc j) of
             Inl (src', d) \<Rightarrow> Inl (src', destroy_at d j)
           | Inr sd \<Rightarrow> Inr sd))"

text \<open>
  \<open>std::uninitialized_value_construct_n(buf + first, n)\<close>, with the same clean-up when
  \<open>T()\<close> throws.
\<close>

fun uninitialized_value_construct_n ::
  "'a element \<Rightarrow> 'a slot list \<Rightarrow> nat \<Rightarrow> nat \<Rightarrow> 'a slot list + 'a slot list" where
  "uninitialized_value_construct_n T buf first 0 = Inr buf"
| "uninitialized_value_construct_n T buf first (Suc n) =
     (case value_init T of
        None \<Rightarrow> Inl buf
      | Some d \<Rightarrow>
          (case uninitialized_value_construct_n T (buf[first := Live d]) (Suc first) n of
             Inl b \<Rightarrow> Inl (destroy_at b first)
           | Inr b \<Rightarrow> Inr b))"

text \<open>
  Copy and move assignment of one element into a slot that is written whole (the model
  does not ask whether the target held an object before: for \<open>T = int\<close> it need not).
\<close>

definition copy_assign_slot :: "'a element \<Rightarrow> 'a slot \<Rightarrow> 'a slot option" where
  "copy_assign_slot T s =
     (case s of Raw \<Rightarrow> Some Raw
      | Live x \<Rightarrow> if copy_assign_throws T x then None else Some (Live x))"

definition move_assign_slot :: "'a element \<Rightarrow> 'a slot \<Rightarrow> ('a slot \<times> 'a slot) option" where
  "move_assign_slot T s =
     (case s of Raw \<Rightarrow> Some (Raw, Raw)
      | Live x \<Rightarrow>
          if move_assign_throws T x then None
          else Some (Live x, Live (moved_from T x)))"

text \<open>
  The algorithm \<open>std::move(buf + first, buf + first + n, buf + d)\<close> inside one block:
  move assignment slot by slot, front to back. \<open>Inl\<close> is the block as a throwing move
  assignment leaves it.
\<close>

fun std_move ::
  "'a element \<Rightarrow> 'a slot list \<Rightarrow> nat \<Rightarrow> nat \<Rightarrow> nat \<Rightarrow> 'a slot list + 'a slot list" where
  "std_move T buf first 0 d = Inr buf"
| "std_move T buf first (Suc n) d =
     (case move_assign_slot T (slot_at buf first) of
        None \<Rightarrow> Inl buf
      | Some (s, r) \<Rightarrow> std_move T (buf[d := s, first := r]) (Suc first) n (Suc d))"

section \<open>RawMemory\<close>

text \<open>
  \<open>Allocate(n)\<close> is \<open>operator new(n * sizeof(T))\<close>, the product taken in \<open>size_t\<close>, and
  the null buffer for \<open>n = 0\<close>. Where the caller chooses \<open>n\<close> (\<open>Reserve\<close>, \<open>Resize\<close>,
  the sized constructor) the request is modelled in full by \<open>Allocate_requested\<close>: the
  product wraps at \<open>2^64\<close>, the block obtained has room for as many elements as the
  wrapped number of bytes holds, which can be fewer than \<open>n\<close>, and \<open>None\<close> is
  \<open>std::bad_alloc\<close>.
\<close>

definition Allocate_requested :: "'a element \<Rightarrow> nat \<Rightarrow> 'a slot list option" where
  "Allocate_requested T n =
     (if n \<noteq> 0 then
        (let bytes = (n * size_of T) mod 2 ^ 64 in
         if new_throws T bytes then None
         else Some (replicate (bytes div size_of T) Raw))
      else Some [])"

definition RawMemory_requested :: "'a element \<Rightarrow> nat \<Rightarrow> 'a RawMemory option" where
  "RawMemory_requested T capacity =
     (case Allocate_requested T capacity of
        None \<Rightarrow> None
      | Some b \<Rightarrow> Some \<lparr>m_buffer = b, m_capacity = capacity\<rparr>)"

text \<open>
  The appends and the copy constructor ask for a block whose element count they compute
  from the elements a vector already holds (at most twice their number, plus one). For
  these the request is taken to be granted as asked: \<open>n\<close> raw slots. A
  \<open>std::bad_alloc\<close> there would end the call before its first change to the vector.
\<close>

definition Allocate :: "nat \<Rightarrow> 'a slot list" where
  "Allocate n = (if n \<noteq> 0 then replicate n Raw else [])"

definition RawMemory_default :: "'a RawMemory" where
  "RawMemory_default = \<lparr>m_buffer = [], m_capacity = 0\<rparr>"

definition RawMemory_new :: "nat \<Rightarrow> 'a RawMemory" where
  "RawMemory_new capacity = \<lparr>m_buffer = Allocate capacity, m_capacity = capacity\<rparr>"

text \<open>\<open>Swap\<close> between two distinct blocks held as values: (this, other) afterwards.\<close>

definition RawMemory_Swap :: "'a RawMemory \<Rightarrow> 'a RawMemory \<Rightarrow> 'a RawMemory \<times> 'a RawMemory" where
  "RawMemory_Swap this other =
     (\<lparr>m_buffer = m_buffer other, m_capacity = m_capacity other\<rparr>,
      \<lparr>m_buffer = m_buffer this, m_capacity = m_capacity this\<rparr>)"

text \<open>The \<open>assert\<close> of \<open>operator[]\<close>.\<close>

definition index_ok :: "'a RawMemory \<Rightarrow> nat \<Rightarrow> bool" where
  "index_ok m index = (index < m_capacity m)"

section \<open>Vector\<close>

definition Size :: "'a Vector \<Rightarrow> nat" where
  "Size v = m_size v"

definition Capacity :: "'a Vector \<Rightarrow> nat" where
  "Capacity v = m_capacity (m_data v)"

definition Vector_default :: "'a Vector" where
  "Vector_default = \<lparr>m_data = RawMemory_default, m_size = 0\<rparr>"

text \<open>Writing a new slot list into the block the vector owns.\<close>

definition with_buffer :: "'a Vector \<Rightarrow> 'a slot list \<Rightarrow> 'a Vector" where
  "with_buffer v buf = v\<lparr>m_data := (m_data v)\<lparr>m_buffer := buf\<rparr>\<rparr>"

definition Destroy :: "'a slot list \<Rightarrow> nat \<Rightarrow> 'a slot list" where
  "Destroy buf i = destroy_at buf i"

text \<open>\<open>DestroyN(buf, n)\<close>: \<open>Destroy(buf + i)\<close> for \<open>i\<close> from 0 up to \<open>n\<close>.\<close>

fun DestroyN_from :: "'a slot list \<Rightarrow> nat \<Rightarrow> nat \<Rightarrow> 'a slot list" where
  "DestroyN_from buf i 0 = buf"
| "DestroyN_from buf i (Suc n) = DestroyN_from (Destroy buf i) (Suc i) n"

definition DestroyN :: "'a slot list \<Rightarrow> nat \<Rightarrow> 'a slot list" where
  "DestroyN buf n = DestroyN_from buf 0 n"

text \<open>\<open>PopBack\<close> is \<open>noexcept\<close> and has no \<open>assert\<close>: it always returns.\<close>

definition PopBack :: "'a Vector \<Rightarrow> 'a Vector" where
  "PopBack v =
     (if m_size v = 0 then v
      else (with_buffer v (destroy_at (m_buffer (m_data v)) (m_size v)))\<lparr>m_size := m_size v - 1\<rparr>)"

text \<open>
  The relocation block repeated in \<open>Reserve\<close>, both \<open>PushBack\<close>s and \<open>EmplaceBack\<close>:
  \<open>uninitialized_move_n\<close> when the \<open>if constexpr\<close> condition holds, else
  \<open>uninitialized_copy_n\<close> (which leaves the source as it is).
\<close>

definition relocate ::
  "'a element \<Rightarrow> bool \<Rightarrow> 'a slot list \<Rightarrow> nat \<Rightarrow> 'a slot list
     \<Rightarrow> ('a slot list \<times> 'a slot list) + ('a slot list \<times> 'a slot list)" where
  "relocate T by_move src n dst =
     (if by_move then uninitialized_move_n T src 0 n dst 0
      else (case uninitialized_copy_n T src 0 n dst 0 of
              Inl d \<Rightarrow> Inl (src, d)
            | Inr d \<Rightarrow> Inr (src, d)))"

text \<open>
  The sized constructor. There is no object before the call and none after a throw: the
  state is \<open>()\<close> and the vector is the value returned.
\<close>

definition Vector_sized :: "'a element \<Rightarrow> nat \<Rightarrow> (unit, 'a Vector, 'a) outcome" where
  "Vector_sized T n =
     (case RawMemory_requested T n of
        None \<Rightarrow> Threw () []
      | Some data \<Rightarrow>
          if n > length (m_buffer data) then MemoryFault
          else case uninitialized_value_construct_n T (m_buffer data) 0 n of
            Inl b \<Rightarrow> Threw () b
          | Inr b \<Rightarrow> Returned () \<lparr>m_data = data\<lparr>m_buffer := b\<rparr>, m_size = n\<rparr>)"

text \<open>
  The copy constructor. A throw leaves no object: \<open>Inl\<close> is the block its \<open>m_data\<close>
  member released.
\<close>

definition Vector_copy :: "'a element \<Rightarrow> 'a Vector \<Rightarrow> 'a slot list + 'a Vector" where
  "Vector_copy T other =
     (let data = RawMemory_new (m_size other) in
      case uninitialized_copy_n T (m_buffer (m_data other)) 0 (m_size other) (m_buffer data) 0 of
        Inl b \<Rightarrow> Inl b
      | Inr b \<Rightarrow> Inr \<lparr>m_data = data\<lparr>m_buffer := b\<rparr>, m_size = m_size other\<rparr>)"

text \<open>The move constructor: (the new vector, \<open>other\<close> afterwards).\<close>

definition Vector_move :: "'a Vector \<Rightarrow> 'a Vector \<times> 'a Vector" where
  "Vector_move other =
     (let (data, other_data) = RawMemory_Swap RawMemory_default (m_data other)
      in (\<lparr>m_data = data, m_size = m_size other\<rparr>, \<lparr>m_data = other_data, m_size = 0\<rparr>))"

text \<open>
  The destructor runs \<open>DestroyN\<close> over the live range and releases the block; the result
  is the block as it is released.
\<close>

definition Vector_dtor :: "'a Vector \<Rightarrow> 'a slot list" where
  "Vector_dtor v = DestroyN (m_buffer (m_data v)) (m_size v)"

text \<open>\<open>Swap\<close> with a distinct vector held as a value (a local): (this, other) afterwards.\<close>

definition Vector_Swap_local :: "'a Vector \<Rightarrow> 'a Vector \<Rightarrow> 'a Vector \<times> 'a Vector" where
  "Vector_Swap_local this other =
     (let (data, other_data) = RawMemory_Swap (m_data this) (m_data other)
      in (\<lparr>m_data = data, m_size = m_size other\<rparr>, \<lparr>m_data = other_data, m_size = m_size this\<rparr>))"

text \<open>
  \<open>Reserve(new_capacity)\<close>. The block comes from a request of the caller's size: it may
  be refused, and after a wrap of \<open>n * sizeof(T)\<close> it is shorter than \<open>new_capacity\<close>.
  Relocating \<open>size_\<close> elements into a block with fewer slots writes past its end.
\<close>

definition Reserve :: "'a element \<Rightarrow> nat \<Rightarrow> 'a Vector \<Rightarrow> ('a Vector, unit, 'a) outcome" where
  "Reserve T new_capacity v =
     (if new_capacity > Capacity v then
        (case RawMemory_requested T new_capacity of
           None \<Rightarrow> Threw v []
         | Some new_data \<Rightarrow>
             if m_size v > length (m_buffer new_data) then MemoryFault
             else case relocate T (nothrow_move_constructible T \<or> \<not> copy_constructible T)
                         (m_buffer (m_data v)) (m_size v) (m_buffer new_data) of
               Inl (src, dst) \<Rightarrow> Threw (with_buffer v src) dst
             | Inr (src, dst) \<Rightarrow>
                 (let old = DestroyN src (m_size v);
                      (data, released) =
                        RawMemory_Swap ((m_data v)\<lparr>m_buffer := old\<rparr>)
                          (new_data\<lparr>m_buffer := dst\<rparr>)
                  in Returned (v\<lparr>m_data := data\<rparr>) ()))
      else Returned v ())"

text \<open>
  \<open>Resize(new_size)\<close>. After \<open>Reserve\<close> the block can be shorter than \<open>new_size\<close> (the
  wrapped request above); value-constructing up to \<open>new_size\<close> then writes past its end.
\<close>

definition Resize :: "'a element \<Rightarrow> nat \<Rightarrow> 'a Vector \<Rightarrow> ('a Vector, unit, 'a) outcome" where
  "Resize T new_size v =
     (if m_size v > new_size then
        Returned ((with_buffer v (destroy_n (m_buffer (m_data v)) new_size (m_size v - new_size)))
                    \<lparr>m_size := new_size\<rparr>) ()
      else if m_size v < new_size then
        (case Reserve T new_size v of
           AssertFailed \<Rightarrow> AssertFailed
         | MemoryFault \<Rightarrow> MemoryFault
         | Threw v' f \<Rightarrow> Threw v' f
         | Returned v' _ \<Rightarrow>
             if new_size > length (m_buffer (m_data v')) then MemoryFault
             else
               (case uninitialized_value_construct_n T (m_buffer (m_data v')) (m_size v')
                       (new_size - m_size v') of
                  Inl b \<Rightarrow> Threw (with_buffer v' b) []
                | Inr b \<Rightarrow> Returned ((with_buffer v' b)\<lparr>m_size := new_size\<rparr>) ()))
      else Returned v ())"

text \<open>\<open>PushBack(const T& value)\<close>.\<close>

definition PushBack_copy :: "'a element \<Rightarrow> 'a \<Rightarrow> 'a Vector \<Rightarrow> ('a Vector, unit, 'a) outcome" where
  "PushBack_copy T value v =
     (if m_size v = Capacity v then
        (let new_data = RawMemory_new (if m_size v = 0 then 1 else m_size v * 2) in
         if \<not> index_ok new_data (m_size v) then AssertFailed
         else case copy_assign_slot T (Live value) of
           None \<Rightarrow> Threw v (m_buffer new_data)
         | Some s \<Rightarrow>
             (case relocate T (nothrow_move_constructible T \<or> \<not> copy_constructible T)
                     (m_buffer (m_data v)) (m_size v) ((m_buffer new_data)[m_size v := s]) of
                Inl (src, dst) \<Rightarrow> Threw (with_buffer v src) dst
              | Inr (src, dst) \<Rightarrow>
                  (let old = destroy_n src 0 (m_size v);
                       (data, released) =
                         RawMemory_Swap ((m_data v)\<lparr>m_buffer := old\<rparr>) (new_data\<lparr>m_buffer := dst\<rparr>)
                   in Returned \<lparr>m_data = data, m_size = m_size v + 1\<rparr> ())))
      else
        (if \<not> index_ok (m_data v) (m_size v) then AssertFailed
         else case copy_assign_slot T (Live value) of
           None \<Rightarrow> Threw v []
         | Some s \<Rightarrow>
             Returned ((with_buffer v ((m_buffer (m_data v))[m_size v := s]))
                         \<lparr>m_size := m_size v + 1\<rparr>) ()))"

text \<open>
  \<open>PushBack(U&& value)\<close>. \<open>ctor\<close> is what \<open>T(std::forward<U>(value))\<close> gives: the new
  element, or \<open>None\<close> when that constructor throws. \<open>U_copy_constructible\<close> is
  \<open>std::is_copy_constructible_v<U>\<close> for the deduced \<open>U\<close>.
\<close>

definition PushBack_fwd ::
  "'a element \<Rightarrow> bool \<Rightarrow> 'a option \<Rightarrow> 'a Vector \<Rightarrow> ('a Vector, unit, 'a) outcome" where
  "PushBack_fwd T U_copy_constructible ctor v =
     (if Capacity v > m_size v then
        (case ctor of
           None \<Rightarrow> Threw v []
         | Some x \<Rightarrow>
             Returned ((with_buffer v ((m_buffer (m_data v))[m_size v := Live x]))
                         \<lparr>m_size := m_size v + 1\<rparr>) ())
      else
        (let new_size = m_size v + 1;
             new_capacity = max (Capacity v * 2) new_size;
             new_data = RawMemory_new new_capacity in
         case ctor of
           None \<Rightarrow> Threw v (m_buffer new_data)
         | Some x \<Rightarrow>
             (case relocate T (nothrow_move_constructible T \<or> \<not> U_copy_constructible)
                     (m_buffer (m_data v)) (m_size v) ((m_buffer new_data)[m_size v := Live x]) of
                Inl (src, dst) \<Rightarrow> Threw (with_buffer v src) (destroy_n dst (m_size v) 1)
              | Inr (src, dst) \<Rightarrow>
                  (let old = destroy_n src 0 (m_size v);
                       (data, released) =
                         RawMemory_Swap ((m_data v)\<lparr>m_buffer := old\<rparr>) (new_data\<lparr>m_buffer := dst\<rparr>)
                   in Returned \<lparr>m_data = data, m_size = m_size v + 1\<rparr> ()))))"

text \<open>
  \<open>EmplaceBack(Args&&... args)\<close>. \<open>ctor\<close> is what \<open>T(std::forward<Args>(args)...)\<close>
  gives. The reference returned is the index of its slot.
\<close>

definition EmplaceBack ::
  "'a element \<Rightarrow> 'a option \<Rightarrow> 'a Vector \<Rightarrow> ('a Vector, nat, 'a) outcome" where
  "EmplaceBack T ctor v =
     (let index = m_size v in
      case
        (if m_size v = Capacity v then
           (let new_data = RawMemory_new (if m_size v = 0 then 1 else m_size v * 2) in
            case ctor of
              None \<Rightarrow> Threw v (m_buffer new_data)
            | Some x \<Rightarrow>
                (case relocate T (nothrow_move_constructible T \<or> \<not> copy_constructible T)
                        (m_buffer (m_data v)) (m_size v)
                        ((m_buffer new_data)[m_size v := Live x]) of
                   Inl (src, dst) \<Rightarrow> Threw (with_buffer v src) dst
                 | Inr (src, dst) \<Rightarrow>
                     (let old = destroy_n src 0 (m_size v);
                          (data, released) =
                            RawMemory_Swap ((m_data v)\<lparr>m_buffer := old\<rparr>)
                              (new_data\<lparr>m_buffer := dst\<rparr>)
                      in Returned (v\<lparr>m_data := data\<rparr>) ())))
         else
           (case ctor of
              None \<Rightarrow> Threw v []
            | Some x \<Rightarrow> Returned (with_buffer v ((m_buffer (m_data v))[m_size v := Live x])) ()))
      of
        AssertFailed \<Rightarrow> AssertFailed
      | MemoryFault \<Rightarrow> MemoryFault
      | Threw v' f \<Rightarrow> Threw v' f
      | Returned v' _ \<Rightarrow>
          (let v'' = v'\<lparr>m_size := m_size v' + 1\<rparr> in
           if \<not> index_ok (m_data v'') index then AssertFailed else Returned v'' index))"

text \<open>
  \<open>Erase(pos)\<close>. An iterator is the distance from \<open>begin()\<close>, so \<open>pos >= begin()\<close>
  always holds; the iterator returned is \<open>distance\<close>.
\<close>

definition Erase :: "'a element \<Rightarrow> nat \<Rightarrow> 'a Vector \<Rightarrow> ('a Vector, nat, 'a) outcome" where
  "Erase T pos v =
     (if \<not> pos < m_size v then AssertFailed
      else
        (let distance = pos in
         case std_move T (m_buffer (m_data v)) (pos + 1) (m_size v - (pos + 1)) pos of
           Inl b \<Rightarrow> Threw (with_buffer v b) []
         | Inr b \<Rightarrow>
             Returned ((with_buffer v (destroy_at b (m_size v)))\<lparr>m_size := m_size v - 1\<rparr>)
               distance))"

text \<open>The loops \<open>for (i = 0; i != n; ++i) data_[i] = rhs.data_[i]\<close> of copy assignment.\<close>

fun copy_assign_loop ::
  "'a element \<Rightarrow> 'a RawMemory \<Rightarrow> 'a RawMemory \<Rightarrow> nat \<Rightarrow> nat
     \<Rightarrow> ('a RawMemory, unit, 'a) outcome" where
  "copy_assign_loop T rhs_data data i 0 = Returned data ()"
| "copy_assign_loop T rhs_data data i (Suc n) =
     (if \<not> (index_ok data i \<and> index_ok rhs_data i) then AssertFailed
      else case copy_assign_slot T (slot_at (m_buffer rhs_data) i) of
        None \<Rightarrow> Threw data []
      | Some s \<Rightarrow>
          copy_assign_loop T rhs_data (data\<lparr>m_buffer := (m_buffer data)[i := s]\<rparr>) (Suc i) n)"

text \<open>
  The body of \<open>operator=(const Vector& rhs)\<close> under \<open>this != &rhs\<close>: \<open>rhs\<close> is another
  object and is only read. The local \<open>rhs_copy\<close> ends with \<open>Vector_dtor\<close>.
\<close>

definition copy_assign_body ::
  "'a element \<Rightarrow> 'a Vector \<Rightarrow> 'a Vector \<Rightarrow> ('a Vector, unit, 'a) outcome" where
  "copy_assign_body T rhs v =
     (if m_size rhs > m_capacity (m_data v) then
        (case Vector_copy T rhs of
           Inl released \<Rightarrow> Threw v released
         | Inr rhs_copy \<Rightarrow>
             (let (v', rhs_copy') = Vector_Swap_local v rhs_copy in Returned v' ()))
      else if Size rhs \<ge> m_size v then
        (case copy_assign_loop T (m_data rhs) (m_data v) 0 (m_size v) of
           AssertFailed \<Rightarrow> AssertFailed
         | MemoryFault \<Rightarrow> MemoryFault
         | Threw d f \<Rightarrow> Threw (v\<lparr>m_data := d\<rparr>) f
         | Returned d _ \<Rightarrow>
             (case uninitialized_copy_n T (m_buffer (m_data rhs)) (m_size v)
                     (m_size rhs - m_size v) (m_buffer d) (m_size v) of
                Inl b \<Rightarrow> Threw (v\<lparr>m_data := d\<lparr>m_buffer := b\<rparr>\<rparr>) []
              | Inr b \<Rightarrow> Returned \<lparr>m_data = d\<lparr>m_buffer := b\<rparr>, m_size = m_size rhs\<rparr> ()))
      else
        (case copy_assign_loop T (m_data rhs) (m_data v) 0 (m_size rhs) of
           AssertFailed \<Rightarrow> AssertFailed
         | MemoryFault \<Rightarrow> MemoryFault
         | Threw d f \<Rightarrow> Threw (v\<lparr>m_data := d\<rparr>) f
         | Returned d _ \<Rightarrow>
             (let i = m_size rhs in
              Returned \<lparr>m_data = d\<lparr>m_buffer := destroy_n (m_buffer d) i (m_size v - m_size rhs)\<rparr>,
                        m_size = i\<rparr> ())))"

section \<open>Operations on two vectors that may be the same object\<close>

text \<open>
  \<open>Swap\<close> and the assignment operators take a reference to another vector, which may be
  \<open>*this\<close>. Vectors therefore live in a store, addressed by \<open>nat\<close>, and
  \<open>std::swap(x, y)\<close> on a member is its three moves in order.
\<close>

type_synonym 'a store = "nat \<Rightarrow> 'a Vector"

definition std_swap ::
  "('a Vector \<Rightarrow> 'f) \<Rightarrow> ('f \<Rightarrow> 'a Vector \<Rightarrow> 'a Vector) \<Rightarrow> nat \<Rightarrow> nat \<Rightarrow> 'a store \<Rightarrow> 'a store" where
  "std_swap get put a b s =
     (let tmp = get (s a);
          s1 = s(a := put (get (s b)) (s a));
          s2 = s1(b := put tmp (s1 b))
      in s2)"

text \<open>\<open>data_.Swap(other.data_)\<close> on the blocks of the vectors at two addresses.\<close>

definition RawMemory_Swap_at :: "nat \<Rightarrow> nat \<Rightarrow> 'a store \<Rightarrow> 'a store" where
  "RawMemory_Swap_at this other s =
     (let s1 = std_swap (\<lambda>v. m_buffer (m_data v)) (\<lambda>b v. v\<lparr>m_data := (m_data v)\<lparr>m_buffer := b\<rparr>\<rparr>)
                 this other s
      in std_swap (\<lambda>v. m_capacity (m_data v)) (\<lambda>c v. v\<lparr>m_data := (m_data v)\<lparr>m_capacity := c\<rparr>\<rparr>)
           this other s1)"

definition Vector_Swap :: "nat \<Rightarrow> nat \<Rightarrow> 'a store \<Rightarrow> 'a store" where
  "Vector_Swap this other s =
     std_swap m_size (\<lambda>n v. v\<lparr>m_size := n\<rparr>) this other (RawMemory_Swap_at this other s)"

text \<open>\<open>operator=(Vector&& other)\<close>, \<open>noexcept\<close>.\<close>

definition move_assign :: "nat \<Rightarrow> nat \<Rightarrow> 'a store \<Rightarrow> 'a store" where
  "move_assign this other s = (if this \<noteq> other then Vector_Swap this other s else s)"

text \<open>\<open>operator=(const Vector& rhs)\<close>.\<close>

definition copy_assign ::
  "'a element \<Rightarrow> nat \<Rightarrow> nat \<Rightarrow> 'a store \<Rightarrow> ('a store, unit, 'a) outcome" where
  "copy_assign T this rhs s =
     (if this \<noteq> rhs then
        (case copy_assign_body T (s rhs) (s this) of
           AssertFailed \<Rightarrow> AssertFailed
         | MemoryFault \<Rightarrow> MemoryFault
         | Threw v f \<Rightarrow> Threw (s(this := v)) f
         | Returned v _ \<Rightarrow> Returned (s(this := v)) ())
      else Returned s ())"

text \<open>\<open>operator[]\<close> with its \<open>assert\<close>s: the slot referred to, \<open>None\<close> when one fails.\<close>

definition Vector_index :: "'a Vector \<Rightarrow> nat \<Rightarrow> 'a slot option" where
  "Vector_index v index =
     (if \<not> index < m_size v then None
      else if \<not> index_ok (m_data v) index then None
      else Some (slot_at (m_buffer (m_data v)) index))"

section \<open>Observations, invariants and sequences of operations\<close>

text \<open>The elements of a vector: the slots of its live range, in index order.\<close>

definition elements :: "'a Vector \<Rightarrow> 'a slot list" where
  "elements v = take (m_size v) (m_buffer (m_data v))"

text \<open>
  \<open>valid\<close>: the block has \<open>m_capacity\<close> slots and the size does not exceed it.
  \<open>live_prefix\<close>: the slots \<open>[0, size)\<close> hold live elements. \<open>raw_suffix\<close>: the slots
  \<open>[size, capacity)\<close> hold none.
\<close>

definition valid :: "'a Vector \<Rightarrow> bool" where
  "valid v = (m_capacity (m_data v) = length (m_buffer (m_data v)) \<and> m_size v \<le> m_capacity (m_data v))"

definition live_prefix :: "'a Vector \<Rightarrow> bool" where
  "live_prefix v = list_all is_Live (take (m_size v) (m_buffer (m_data v)))"

definition raw_suffix :: "'a Vector \<Rightarrow> bool" where
  "raw_suffix v = list_all (\<lambda>s. \<not> is_Live s) (drop (m_size v) (m_buffer (m_data v)))"

text \<open>The operations on a single vector, and the state a call leaves it in.\<close>

datatype 'a operation =
    OpReserve nat
  | OpResize nat
  | OpPushBack_copy 'a
  | OpPushBack_fwd bool "'a option"
  | OpEmplaceBack "'a option"
  | OpPopBack
  | OpErase nat

fun state_after :: "('a Vector, 'r, 'a) outcome \<Rightarrow> 'a Vector option" where
  "state_after (Returned v r) = Some v"
| "state_after (Threw v f) = Some v"
| "state_after AssertFailed = None"
| "state_after MemoryFault = None"

fun apply_operation :: "'a element \<Rightarrow> 'a operation \<Rightarrow> 'a Vector \<Rightarrow> 'a Vector option" where
  "apply_operation T (OpReserve n) v = state_after (Reserve T n v)"
| "apply_operation T (OpResize n) v = state_after (Resize T n v)"
| "apply_operation T (OpPushBack_copy x) v = state_after (PushBack_copy T x v)"
| "apply_operation T (OpPushBack_fwd cc ctor) v = state_after (PushBack_fwd T cc ctor v)"
| "apply_operation T (OpEmplaceBack ctor) v = state_after (EmplaceBack T ctor v)"
| "apply_operation T OpPopBack v = Some (PopBack v)"
| "apply_operation T (OpErase pos) v = state_after (Erase T pos v)"

text \<open>
  A \<open>Reserve\<close> whose request does not wrap: \<open>n * sizeof(T)\<close> is below \<open>2^64\<close>. Only
  \<open>Reserve\<close> can return with a block shorter than the capacity it records. On such a
  vector an append that finds \<open>size_ < capacity_\<close> constructs past the end of the block,
  which is undefined behaviour and is not given a meaning here (the update of a slot
  outside the list is dropped); the statements about the appends are about vectors whose
  block is as long as the capacity, or about calls that throw before they write.
\<close>

fun request_fits :: "'a element \<Rightarrow> 'a operation \<Rightarrow> bool" where
  "request_fits T (OpReserve n) = (0 < size_of T \<and> n * size_of T < 2 ^ 64)"
| "request_fits T (OpResize n) = True"
| "request_fits T (OpPushBack_copy x) = True"
| "request_fits T (OpPushBack_fwd cc ctor) = True"
| "request_fits T (OpEmplaceBack ctor) = True"
| "request_fits T OpPopBack = True"
| "request_fits T (OpErase pos) = True"

fun run :: "'a element \<Rightarrow> 'a operation list \<Rightarrow> 'a Vector \<Rightarrow> 'a Vector option" where
  "run T [] v = Some v"
| "run T (op # ops) v =
     (case apply_operation T op v of None \<Rightarrow> None | Some v' \<Rightarrow> run T ops v')"

text \<open>The capacities seen while running a sequence of operations, the initial one first.\<close>

fun capacities :: "'a element \<Rightarrow> 'a operation list \<Rightarrow> 'a Vector \<Rightarrow> nat list" where
  "capacities T [] v = [Capacity v]"
| "capacities T (op # ops) v =
     Capacity v # (case apply_operation T op v of None \<Rightarrow> [] | Some v' \<Rightarrow> capacities T ops v')"

section \<open>Element types used in examples\<close>

text \<open>The free store of the examples refuses a request of more than \<open>2^40\<close> bytes.\<close>

definition refuses_large :: "nat \<Rightarrow> bool" where
  "refuses_large bytes = (2 ^ 40 < bytes)"

text \<open>
  \<open>int\<close>: nothing throws, a moved-from \<open>int\<close> keeps its value, \<open>int()\<close> is 0 and
  \<open>sizeof(int)\<close> is 4.
\<close>

definition int_element :: "int element" where
  "int_element =
     \<lparr>nothrow_move_constructible = True, copy_constructible = True,
      copy_ctor_throws = (\<lambda>x. False), copy_assign_throws = (\<lambda>x. False),
      move_ctor_throws = (\<lambda>x. False), move_assign_throws = (\<lambda>x. False),
      moved_from = (\<lambda>x. x), value_init = Some 0,
      size_of = 4, new_throws = refuses_large\<rparr>"

text \<open>
  A copyable type whose move constructor is not \<open>noexcept\<close> and whose copy constructor
  throws on the value 2: it is relocated by copy.
\<close>

definition throwing_copy_element :: "int element" where
  "throwing_copy_element =
     \<lparr>nothrow_move_constructible = False, copy_constructible = True,
      copy_ctor_throws = (\<lambda>x. x = 2), copy_assign_throws = (\<lambda>x. False),
      move_ctor_throws = (\<lambda>x. False), move_assign_throws = (\<lambda>x. False),
      moved_from = (\<lambda>x. 0), value_init = Some 0,
      size_of = 4, new_throws = refuses_large\<rparr>"

text \<open>
  A move-only type whose move constructor throws on the value 2 and leaves 0 in a
  moved-from object: it is relocated by move.
\<close>

definition throwing_move_element :: "int element" where
  "throwing_move_element =
     \<lparr>nothrow_move_constructible = False, copy_constructible = False,
      copy_ctor_throws = (\<lambda>x. False), copy_assign_throws = (\<lambda>x. False),
      move_ctor_throws = (\<lambda>x. x = 2), move_assign_throws = (\<lambda>x. False),
      moved_from = (\<lambda>x. 0), value_init = Some 0,
      size_of = 4, new_throws = refuses_large\<rparr>"

text \<open>A vector holding the given elements in a block of the given capacity.\<close>

definition vector_of :: "'a list \<Rightarrow> nat \<Rightarrow> 'a Vector" where
  "vector_of xs cap =
     \<lparr>m_data = \<lparr>m_buffer = map Live xs @ replicate (cap - length xs) Raw, m_capacity = cap\<rparr>,
      m_size = length xs\<rparr>"

text \<open>Two vectors at the addresses 0 and 1 of a store.\<close>

definition two_vectors :: "int store" where
  "two_vectors = (\<lambda>a. Vector_default)(0 := vector_of [1, 2] 2, 1 := vector_of [5, 2, 7] 4)"

section \<open>The storage primitives\<close>

lemma length_destroy_at [simp]: "length (destroy_at buf i) = length buf"
  by (simp add: destroy_at_def)

lemma nth_destroy_at: "k < length buf \<Longrightarrow> destroy_at buf i ! k = (if k = i then Raw else buf ! k)"
  by (simp add: destroy_at_def)

lemma length_destroy_n [simp]: "length (destroy_n buf first n) = length buf"
  by (induction n arbitrary: buf first) simp_all

lemma nth_destroy_n:
  "k < length buf \<Longrightarrow>
   destroy_n buf first n ! k = (if first \<le> k \<and> k < first + n then Raw else buf ! k)"
  by (induction n arbitrary: buf first) (auto simp: nth_destroy_at)

lemma copy_construct_Some: "copy_construct T s = Some s' \<Longrightarrow> s' = s"
  by (auto simp: copy_construct_def split: slot.splits if_splits)

lemma copy_assign_slot_Some: "copy_assign_slot T s = Some s' \<Longrightarrow> s' = s"
  by (auto simp: copy_assign_slot_def split: slot.splits if_splits)

lemma move_construct_Some: "move_construct T s = Some (s', r) \<Longrightarrow> s' = s"
  by (auto simp: move_construct_def split: slot.splits if_splits)

lemma slot_at_update:
  "slot_at (buf[i := s]) k = (if k = i \<and> i < length buf then s else slot_at buf k)"
  by (simp add: slot_at_def)

lemma uninitialized_copy_n_length:
  "uninitialized_copy_n T src i n dst j = Inr d \<Longrightarrow> length d = length dst"
  "uninitialized_copy_n T src i n dst j = Inl d' \<Longrightarrow> length d' = length dst"
  by (induction n arbitrary: i dst j d d') (auto split: option.splits sum.splits)

lemma uninitialized_copy_n_Inr_outside:
  "uninitialized_copy_n T src i n dst j = Inr d \<Longrightarrow> k < j \<or> j + n \<le> k \<Longrightarrow> d ! k = dst ! k"
proof (induction n arbitrary: i dst j d)
  case 0
  then show ?case by simp
next
  case (Suc n)
  from Suc.prems(1) obtain s where
    rec: "uninitialized_copy_n T src (Suc i) n (dst[j := s]) (Suc j) = Inr d"
    by (auto split: option.splits sum.splits)
  from Suc.prems(2) have "k < Suc j \<or> Suc j + n \<le> k" and "k \<noteq> j" by auto
  with Suc.IH[OF rec] show ?case by simp
qed

lemma uninitialized_copy_n_Inr_inside:
  "uninitialized_copy_n T src i n dst j = Inr d \<Longrightarrow> m < n \<Longrightarrow> j + m < length dst \<Longrightarrow>
   d ! (j + m) = slot_at src (i + m)"
proof (induction n arbitrary: i dst j d m)
  case 0
  then show ?case by simp
next
  case (Suc n)
  from Suc.prems(1) obtain s where
    s: "copy_construct T (slot_at src i) = Some s" and
    rec: "uninitialized_copy_n T src (Suc i) n (dst[j := s]) (Suc j) = Inr d"
    by (auto split: option.splits sum.splits)
  have s_eq: "s = slot_at src i" using s by (rule copy_construct_Some)
  show ?case
  proof (cases m)
    case 0
    have "d ! j = dst[j := s] ! j"
      using uninitialized_copy_n_Inr_outside[OF rec, of j] by simp
    with 0 Suc.prems(3) s_eq show ?thesis by simp
  next
    case (Suc m')
    with Suc.prems have "m' < n" and "Suc j + m' < length (dst[j := s])" by simp_all
    from Suc.IH[OF rec this] Suc show ?thesis by simp
  qed
qed

lemma uninitialized_copy_n_Inl_nth:
  "uninitialized_copy_n T src i n dst j = Inl d \<Longrightarrow> k < length dst \<Longrightarrow>
   d ! k = dst ! k \<or> d ! k = Raw"
proof (induction n arbitrary: i dst j d)
  case 0
  then show ?case by simp
next
  case (Suc n)
  show ?case
  proof (cases "copy_construct T (slot_at src i)")
    case None
    with Suc.prems show ?thesis by simp
  next
    case (Some s)
    with Suc.prems(1) obtain d0 where
      rec: "uninitialized_copy_n T src (Suc i) n (dst[j := s]) (Suc j) = Inl d0" and
      d: "d = destroy_at d0 j"
      by (auto split: sum.splits)
    have len: "length d0 = length dst" using uninitialized_copy_n_length(2)[OF rec] by simp
    from Suc.IH[OF rec, of ] Suc.prems(2) have "d0 ! k = dst[j := s] ! k \<or> d0 ! k = Raw" by simp
    then show ?thesis using Suc.prems(2) len by (auto simp: d nth_destroy_at nth_list_update)
  qed
qed


lemma uninitialized_move_n_length:
  "uninitialized_move_n T src i n dst j = Inr (s', d) \<Longrightarrow> length d = length dst \<and> length s' = length src"
  "uninitialized_move_n T src i n dst j = Inl (s'', d') \<Longrightarrow> length d' = length dst \<and> length s'' = length src"
  by (induction n arbitrary: src i dst j s' d s'' d')
     (auto split: option.splits sum.splits prod.splits)

lemma uninitialized_move_n_Inr_outside:
  "uninitialized_move_n T src i n dst j = Inr (s', d) \<Longrightarrow> k < j \<or> j + n \<le> k \<Longrightarrow> d ! k = dst ! k"
proof (induction n arbitrary: src i dst j)
  case 0
  then show ?case by simp
next
  case (Suc n)
  from Suc.prems(1) obtain s r where
    rec: "uninitialized_move_n T (src[i := r]) (Suc i) n (dst[j := s]) (Suc j) = Inr (s', d)"
    by (auto split: option.splits sum.splits prod.splits)
  from Suc.prems(2) have "k < Suc j \<or> Suc j + n \<le> k" and "k \<noteq> j" by auto
  with Suc.IH[OF rec] show ?case by simp
qed

lemma uninitialized_move_n_Inr_inside:
  "uninitialized_move_n T src i n dst j = Inr (s', d) \<Longrightarrow> m < n \<Longrightarrow> j + m < length dst \<Longrightarrow>
   d ! (j + m) = slot_at src (i + m)"
proof (induction n arbitrary: src i dst j m)
  case 0
  then show ?case by simp
next
  case (Suc n)
  from Suc.prems(1) obtain s r where
    s: "move_construct T (slot_at src i) = Some (s, r)" and
    rec: "uninitialized_move_n T (src[i := r]) (Suc i) n (dst[j := s]) (Suc j) = Inr (s', d)"
    by (auto split: option.splits sum.splits prod.splits)
  have s_eq: "s = slot_at src i" using s by (rule move_construct_Some)
  show ?case
  proof (cases m)
    case 0
    have "d ! j = dst[j := s] ! j"
      using uninitialized_move_n_Inr_outside[OF rec, of j] by simp
    with 0 Suc.prems(3) s_eq show ?thesis by simp
  next
    case (Suc m')
    with Suc.prems have "m' < n" and "Suc j + m' < length (dst[j := s])" by simp_all
    from Suc.IH[OF rec this] Suc show ?thesis by (simp add: slot_at_update)
  qed
qed

lemma uninitialized_move_n_Inl_nth:
  "uninitialized_move_n T src i n dst j = Inl (s', d) \<Longrightarrow> k < length dst \<Longrightarrow>
   d ! k = dst ! k \<or> d ! k = Raw"
proof (induction n arbitrary: src i dst j d)
  case 0
  then show ?case by simp
next
  case (Suc n)
  show ?case
  proof (cases "move_construct T (slot_at src i)")
    case None
    with Suc.prems show ?thesis by simp
  next
    case (Some sr)
    obtain s r where sr: "sr = (s, r)" by (cases sr)
    with Some Suc.prems(1) obtain d0 where
      rec: "uninitialized_move_n T (src[i := r]) (Suc i) n (dst[j := s]) (Suc j) = Inl (s', d0)" and
      d: "d = destroy_at d0 j"
      by (auto split: sum.splits prod.splits)
    have len: "length d0 = length dst" using uninitialized_move_n_length(2)[OF rec] by simp
    from Suc.IH[OF rec] Suc.prems(2) have "d0 ! k = dst[j := s] ! k \<or> d0 ! k = Raw" by simp
    then show ?thesis using Suc.prems(2) len by (auto simp: d nth_destroy_at nth_list_update)
  qed
qed

lemma uninitialized_value_construct_n_length:
  "uninitialized_value_construct_n T buf first n = Inr b \<Longrightarrow> length b = length buf"
  "uninitialized_value_construct_n T buf first n = Inl b' \<Longrightarrow> length b' = length buf"
  by (induction n arbitrary: buf first b b') (auto split: option.splits sum.splits)

lemma uninitialized_value_construct_n_outside:
  "uninitialized_value_construct_n T buf first n = Inr b \<Longrightarrow> k < first \<or> first + n \<le> k \<Longrightarrow>
   b ! k = buf ! k"
proof (induction n arbitrary: buf first)
  case 0
  then show ?case by simp
next
  case (Suc n)
  from Suc.prems(1) obtain d where
    rec: "uninitialized_value_construct_n T (buf[first := Live d]) (Suc first) n = Inr b"
    by (auto split: option.splits sum.splits)
  from Suc.prems(2) have "k < Suc first \<or> Suc first + n \<le> k" and "k \<noteq> first" by auto
  with Suc.IH[OF rec] show ?case by simp
qed

lemma uninitialized_value_construct_n_inside:
  "uninitialized_value_construct_n T buf first n = Inr b \<Longrightarrow> first \<le> k \<Longrightarrow> k < first + n \<Longrightarrow>
   k < length buf \<Longrightarrow> value_init T = Some d \<Longrightarrow> b ! k = Live d"
proof (induction n arbitrary: buf first)
  case 0
  then show ?case by simp
next
  case (Suc n)
  from Suc.prems(1,5) have
    rec: "uninitialized_value_construct_n T (buf[first := Live d]) (Suc first) n = Inr b"
    by (auto split: option.splits sum.splits)
  show ?case
  proof (cases "k = first")
    case True
    have "b ! first = buf[first := Live d] ! first"
      using uninitialized_value_construct_n_outside[OF rec, of first] by simp
    with True Suc.prems(4) show ?thesis by simp
  next
    case False
    with Suc.prems have "Suc first \<le> k" "k < Suc first + n" "k < length (buf[first := Live d])"
      by simp_all
    from Suc.IH[OF rec this Suc.prems(5)] show ?thesis .
  qed
qed

lemma uninitialized_value_construct_n_Inr_init:
  "uninitialized_value_construct_n T buf first n = Inr b \<Longrightarrow> 0 < n \<Longrightarrow> \<exists>d. value_init T = Some d"
  by (cases n) (auto split: option.splits)

lemma relocate_length:
  "relocate T by_move src n dst = Inr (s', d) \<Longrightarrow> length d = length dst \<and> length s' = length src"
  "relocate T by_move src n dst = Inl (s'', d') \<Longrightarrow> length d' = length dst \<and> length s'' = length src"
  by (auto simp: relocate_def uninitialized_move_n_length uninitialized_copy_n_length
      split: if_splits sum.splits)

lemma relocate_Inr_inside:
  "relocate T by_move src n dst = Inr (s', d) \<Longrightarrow> m < n \<Longrightarrow> m < length dst \<Longrightarrow>
   d ! m = slot_at src m"
  using uninitialized_move_n_Inr_inside[of T src 0 n dst 0 s' d m]
        uninitialized_copy_n_Inr_inside[of T src 0 n dst 0 d m]
  by (auto simp: relocate_def split: if_splits sum.splits)

lemma relocate_Inr_outside:
  "relocate T by_move src n dst = Inr (s', d) \<Longrightarrow> n \<le> k \<Longrightarrow> d ! k = dst ! k"
  using uninitialized_move_n_Inr_outside[of T src 0 n dst 0 s' d k]
        uninitialized_copy_n_Inr_outside[of T src 0 n dst 0 d k]
  by (auto simp: relocate_def split: if_splits sum.splits)

lemma relocate_Inl_nth:
  "relocate T by_move src n dst = Inl (s', d) \<Longrightarrow> k < length dst \<Longrightarrow>
   d ! k = dst ! k \<or> d ! k = Raw"
  using uninitialized_move_n_Inl_nth[of T src 0 n dst 0 s' d k]
        uninitialized_copy_n_Inl_nth[of T src 0 n dst 0 d k]
  by (auto simp: relocate_def split: if_splits sum.splits)

lemma relocate_copy_Inl_src:
  "relocate T False src n dst = Inl (s', d) \<Longrightarrow> s' = src"
  by (auto simp: relocate_def split: sum.splits)

lemma live_prefix_nth:
  "valid v \<Longrightarrow> live_prefix v \<longleftrightarrow> (\<forall>k<m_size v. is_Live (m_buffer (m_data v) ! k))"
  by (simp add: live_prefix_def valid_def list_all_length)

lemma live_prefix_elements: "live_prefix v \<longleftrightarrow> list_all is_Live (elements v)"
  by (simp add: live_prefix_def elements_def)

section \<open>Appending\<close>

lemma relocate_Inr_take:
  assumes "relocate T by_move src n dst = Inr (s', d)" "n \<le> length src" "n \<le> length dst"
  shows "take n d = take n src"
proof (rule nth_take_lemma)
  show "n \<le> length d" using relocate_length(1)[OF assms(1)] assms(3) by simp
  show "n \<le> length src" by fact
  fix i show "i < n \<longrightarrow> d ! i = src ! i"
    using relocate_Inr_inside[OF assms(1), of i] assms(2,3) by (simp add: slot_at_def)
qed

lemma PushBack_copy_Returned:
  assumes "valid v" "PushBack_copy T x v = Returned v' u"
  shows "m_size v' = m_size v + 1"
    and "valid v'"
    and "take (m_size v) (m_buffer (m_data v')) = take (m_size v) (m_buffer (m_data v))"
    and "m_buffer (m_data v') ! m_size v = Live x"
    and "Capacity v' = (if m_size v = Capacity v then max (2 * Capacity v) 1 else Capacity v)"
proof -
  let ?n = "m_size v" and ?buf = "m_buffer (m_data v)"
  have len: "length ?buf = Capacity v" and le: "?n \<le> Capacity v"
    using assms(1) by (simp_all add: valid_def Capacity_def)
  show "m_size v' = m_size v + 1"
    using assms(2)
    by (auto simp: PushBack_copy_def Let_def with_buffer_def RawMemory_Swap_def
        split: if_splits option.splits sum.splits prod.splits)
  have rest: "valid v' \<and> take ?n (m_buffer (m_data v')) = take ?n ?buf \<and>
     m_buffer (m_data v') ! ?n = Live x \<and>
     Capacity v' = (if ?n = Capacity v then max (2 * Capacity v) 1 else Capacity v)"
  proof (cases "?n = Capacity v")
    case True
    let ?cap = "if ?n = 0 then 1 else ?n * 2"
    let ?nd = "(Allocate ?cap)[?n := Live x]"
    from assms(2) True obtain src dst where
      rel: "relocate T (nothrow_move_constructible T \<or> \<not> copy_constructible T) ?buf ?n ?nd = Inr (src, dst)"
      and v': "v' = \<lparr>m_data = \<lparr>m_buffer = dst, m_capacity = ?cap\<rparr>, m_size = ?n + 1\<rparr>"
      by (auto simp: PushBack_copy_def Let_def RawMemory_Swap_def RawMemory_new_def
          copy_assign_slot_def split: if_splits option.splits sum.splits prod.splits)
    have lnd: "length ?nd = ?cap" by (simp add: Allocate_def)
    have ldst: "length dst = ?cap" using relocate_length(1)[OF rel] lnd by simp
    have lt: "?n < ?cap" by simp
    have "dst ! ?n = ?nd ! ?n" using relocate_Inr_outside[OF rel, of ?n] by simp
    then have at_n: "dst ! ?n = Live x" using lt lnd by simp
    have tk: "take ?n dst = take ?n ?buf"
      using relocate_Inr_take[OF rel] len True lnd lt by simp
    show ?thesis using v' ldst at_n tk True by (auto simp: valid_def Capacity_def)
  next
    case False
    with assms(2) have v': "v' = (with_buffer v (?buf[?n := Live x]))\<lparr>m_size := ?n + 1\<rparr>"
      by (auto simp: PushBack_copy_def Let_def copy_assign_slot_def
          split: if_splits option.splits)
    from False le have "?n < Capacity v" by simp
    then show ?thesis using v' assms(1) False len
      by (auto simp: valid_def Capacity_def with_buffer_def)
  qed
  then show "valid v'"
    and "take (m_size v) (m_buffer (m_data v')) = take (m_size v) (m_buffer (m_data v))"
    and "m_buffer (m_data v') ! m_size v = Live x"
    and "Capacity v' = (if m_size v = Capacity v then max (2 * Capacity v) 1 else Capacity v)"
    by simp_all
qed


lemma PushBack_fwd_Returned:
  assumes "valid v" "PushBack_fwd T cc ctor v = Returned v' u"
  shows "m_size v' = m_size v + 1 \<and> valid v' \<and>
     take (m_size v) (m_buffer (m_data v')) = take (m_size v) (m_buffer (m_data v)) \<and>
     (\<exists>x. ctor = Some x \<and> m_buffer (m_data v') ! m_size v = Live x) \<and>
     Capacity v' =
       (if m_size v = Capacity v then max (2 * Capacity v) (m_size v + 1) else Capacity v)"
proof -
  let ?n = "m_size v" and ?buf = "m_buffer (m_data v)"
  have len: "length ?buf = Capacity v" and le: "?n \<le> Capacity v"
    using assms(1) by (simp_all add: valid_def Capacity_def)
  from assms(2) obtain x where x: "ctor = Some x"
    by (cases ctor) (auto simp: PushBack_fwd_def Let_def split: if_splits)
  show ?thesis
  proof (cases "Capacity v > ?n")
    case False
    with le have eq: "?n = Capacity v" by simp
    let ?cap = "max (Capacity v * 2) (?n + 1)"
    let ?nd = "(Allocate ?cap)[?n := Live x]"
    from assms(2) False x obtain src dst where
      rel: "relocate T (nothrow_move_constructible T \<or> \<not> cc) ?buf ?n ?nd = Inr (src, dst)"
      and v': "v' = \<lparr>m_data = \<lparr>m_buffer = dst, m_capacity = ?cap\<rparr>, m_size = ?n + 1\<rparr>"
      by (auto simp: PushBack_fwd_def Let_def RawMemory_Swap_def RawMemory_new_def
          split: if_splits option.splits sum.splits prod.splits)
    have lnd: "length ?nd = ?cap" by (simp add: Allocate_def)
    have ldst: "length dst = ?cap" using relocate_length(1)[OF rel] lnd by simp
    have lt: "?n < ?cap" by simp
    have "dst ! ?n = ?nd ! ?n" using relocate_Inr_outside[OF rel, of ?n] by simp
    then have at_n: "dst ! ?n = Live x" using lt lnd by simp
    have tk: "take ?n dst = take ?n ?buf"
      using relocate_Inr_take[OF rel] len eq lnd lt by simp
    show ?thesis using v' ldst at_n tk eq x by (auto simp: valid_def Capacity_def mult.commute)
  next
    case True
    with assms(2) x have v': "v' = (with_buffer v (?buf[?n := Live x]))\<lparr>m_size := ?n + 1\<rparr>"
      by (auto simp: PushBack_fwd_def Let_def split: if_splits option.splits)
    show ?thesis using v' assms(1) True len x
      by (auto simp: valid_def Capacity_def with_buffer_def)
  qed
qed

lemma EmplaceBack_Returned:
  assumes "valid v" "EmplaceBack T ctor v = Returned v' r"
  shows "m_size v' = m_size v + 1 \<and> valid v' \<and> r = m_size v \<and>
     take (m_size v) (m_buffer (m_data v')) = take (m_size v) (m_buffer (m_data v)) \<and>
     (\<exists>x. ctor = Some x \<and> m_buffer (m_data v') ! m_size v = Live x) \<and>
     Capacity v' =
       (if m_size v = Capacity v then max (2 * Capacity v) (m_size v + 1) else Capacity v)"
proof -
  let ?n = "m_size v" and ?buf = "m_buffer (m_data v)"
  have len: "length ?buf = Capacity v" and le: "?n \<le> Capacity v"
    using assms(1) by (simp_all add: valid_def Capacity_def)
  from assms(2) obtain x where x: "ctor = Some x"
    by (cases ctor) (auto simp: EmplaceBack_def Let_def split: if_splits)
  show ?thesis
  proof (cases "?n = Capacity v")
    case True
    let ?cap = "if ?n = 0 then 1 else ?n * 2"
    let ?nd = "(Allocate ?cap)[?n := Live x]"
    let ?rel = "relocate T (nothrow_move_constructible T \<or> \<not> copy_constructible T) ?buf ?n ?nd"
    have "\<exists>src dst. ?rel = Inr (src, dst)"
    proof (cases ?rel)
      case (Inl p)
      then have "EmplaceBack T ctor v = Threw (with_buffer v (fst p)) (snd p)"
        using True x by (simp add: EmplaceBack_def RawMemory_new_def Let_def split: prod.splits)
      with assms(2) show ?thesis by simp
    next
      case (Inr p)
      then show ?thesis by (cases p) simp
    qed
    then obtain src dst where rel: "?rel = Inr (src, dst)" by blast
    have "EmplaceBack T ctor v =
        (if ?n < ?cap
         then Returned \<lparr>m_data = \<lparr>m_buffer = dst, m_capacity = ?cap\<rparr>, m_size = ?n + 1\<rparr> ?n
         else AssertFailed)"
      using True x rel
      by (simp add: EmplaceBack_def RawMemory_new_def RawMemory_Swap_def index_ok_def Let_def)
    with assms(2) have
      v': "v' = \<lparr>m_data = \<lparr>m_buffer = dst, m_capacity = ?cap\<rparr>, m_size = ?n + 1\<rparr>"
      and r: "r = ?n"
      by (simp_all split: if_splits)
    have lnd: "length ?nd = ?cap" by (simp add: Allocate_def)
    have ldst: "length dst = ?cap" using relocate_length(1)[OF rel] lnd by simp
    have lt: "?n < ?cap" by simp
    have "dst ! ?n = ?nd ! ?n" using relocate_Inr_outside[OF rel, of ?n] by simp
    then have at_n: "dst ! ?n = Live x" using lt lnd by simp
    have tk: "take ?n dst = take ?n ?buf"
      using relocate_Inr_take[OF rel] len True lnd lt by simp
    show ?thesis using v' ldst at_n tk True x r by (auto simp: valid_def Capacity_def)
  next
    case False
    from False le have lt: "?n < Capacity v" by simp
    have "EmplaceBack T ctor v =
        Returned ((with_buffer v (?buf[?n := Live x]))\<lparr>m_size := ?n + 1\<rparr>) ?n"
      using False x lt
      by (simp add: EmplaceBack_def index_ok_def with_buffer_def Capacity_def Let_def)
    with assms(2) have v': "v' = (with_buffer v (?buf[?n := Live x]))\<lparr>m_size := ?n + 1\<rparr>"
      and r: "r = ?n"
      by auto
    show ?thesis using lt v' assms(1) False len x r
      by (auto simp: valid_def Capacity_def with_buffer_def)
  qed
qed


section \<open>Reserve and calls that cannot throw\<close>

lemma destroy_n_eq:
  "first + n \<le> length buf \<Longrightarrow>
   destroy_n buf first n = take first buf @ replicate n Raw @ drop (first + n) buf"
proof (induction n arbitrary: buf first)
  case 0
  then show ?case by simp
next
  case (Suc n)
  then have lt: "first < length buf" by simp
  have "destroy_at buf first = take first buf @ Raw # drop (Suc first) buf"
    using lt by (simp add: destroy_at_def upd_conv_take_nth_drop)
  moreover have "Suc first + n \<le> length (destroy_at buf first)" using Suc.prems by simp
  ultimately show ?case
    using Suc.IH[of "Suc first" "destroy_at buf first"] lt
    by (simp add: take_Suc_conv_app_nth replicate_app_Cons_same add.commute)
qed

lemma uninitialized_move_n_nothrow:
  "nothrow_move_constructible T \<Longrightarrow> \<exists>p. uninitialized_move_n T src i n dst j = Inr p"
proof (induction n arbitrary: src i dst j)
  case 0
  then show ?case by simp
next
  case (Suc n)
  obtain s r where sr: "move_construct T (slot_at src i) = Some (s, r)"
    using Suc.prems by (cases "slot_at src i") (auto simp: move_construct_def)
  from Suc.IH[OF Suc.prems, of "src[i := r]" "Suc i" "dst[j := s]" "Suc j"] sr
  show ?case by auto
qed

lemma relocate_nothrow:
  "nothrow_move_constructible T \<Longrightarrow>
   \<exists>s' d. relocate T (nothrow_move_constructible T \<or> b) src n dst = Inr (s', d)"
  using uninitialized_move_n_nothrow[of T src 0 n dst 0] by (auto simp: relocate_def)


lemma Allocate_requested_length:
  "Allocate_requested T n = Some b \<Longrightarrow> length b \<le> n"
proof (cases "size_of T = 0")
  case True
  assume "Allocate_requested T n = Some b"
  with True show ?thesis by (auto simp: Allocate_requested_def Let_def split: if_splits)
next
  case False
  assume a: "Allocate_requested T n = Some b"
  have "(n * size_of T) mod 2 ^ 64 div size_of T \<le> (n * size_of T) div size_of T"
    by (rule div_le_mono) simp
  also have "\<dots> = n" using False by simp
  finally show ?thesis using a
    by (auto simp: Allocate_requested_def Let_def split: if_splits)
qed

lemma Allocate_requested_fits:
  assumes "0 < size_of T" "n * size_of T < 2 ^ 64" "\<not> new_throws T (n * size_of T)"
  shows "Allocate_requested T n = Some (replicate n Raw)"
  using assms by (cases "n = 0") (simp_all add: Allocate_requested_def Let_def)

lemma Allocate_requested_fits_Some:
  assumes "0 < size_of T" "n * size_of T < 2 ^ 64" "Allocate_requested T n = Some b"
  shows "b = replicate n Raw"
  using assms by (cases "n = 0") (auto simp: Allocate_requested_def Let_def split: if_splits)

lemma Allocate_requested_small:
  assumes "size_of T = 4" "new_throws T = refuses_large" "n \<le> 16"
  shows "Allocate_requested T n = Some (replicate n Raw)"
proof (rule Allocate_requested_fits)
  show "0 < size_of T" using assms(1) by simp
  show "n * size_of T < 2 ^ 64" using assms(1,3) by simp
  show "\<not> new_throws T (n * size_of T)" using assms by (simp add: refuses_large_def)
qed

lemma Reserve_Returned:
  assumes "valid v" "Reserve T n v = Returned v' u"
  shows "m_size v' = m_size v \<and> elements v' = elements v \<and> Capacity v' = max n (Capacity v)
     \<and> m_size v' \<le> length (m_buffer (m_data v'))
     \<and> length (m_buffer (m_data v')) \<le> Capacity v'"
proof (cases "n > Capacity v")
  case False
  with assms show ?thesis by (simp add: Reserve_def max_def valid_def Capacity_def)
next
  case True
  let ?buf = "m_buffer (m_data v)"
  have len: "length ?buf = Capacity v" and le: "m_size v \<le> Capacity v"
    using assms(1) by (simp_all add: valid_def Capacity_def)
  have "\<exists>b. Allocate_requested T n = Some b"
    using assms(2) True
    by (cases "Allocate_requested T n") (simp_all add: Reserve_def RawMemory_requested_def)
  then obtain b where b: "Allocate_requested T n = Some b" by blast
  have nd: "RawMemory_requested T n = Some \<lparr>m_buffer = b, m_capacity = n\<rparr>"
    using b by (simp add: RawMemory_requested_def)
  have fit: "m_size v \<le> length b"
    using assms(2) True nd by (cases "m_size v > length b") (simp_all add: Reserve_def)
  let ?rel = "relocate T (nothrow_move_constructible T \<or> \<not> copy_constructible T) ?buf (m_size v) b"
  have "\<exists>src dst. ?rel = Inr (src, dst)"
  proof (cases ?rel)
    case (Inl p)
    then have "Reserve T n v = Threw (with_buffer v (fst p)) (snd p)"
      using True nd fit by (simp add: Reserve_def split: prod.splits)
    with assms(2) show ?thesis by simp
  next
    case (Inr p)
    then show ?thesis by (cases p) simp
  qed
  then obtain src dst where rel: "?rel = Inr (src, dst)" by blast
  have "Reserve T n v = Returned (v\<lparr>m_data := \<lparr>m_buffer = dst, m_capacity = n\<rparr>\<rparr>) ()"
    using True nd fit rel by (simp add: Reserve_def RawMemory_Swap_def)
  with assms(2) have v': "v' = v\<lparr>m_data := \<lparr>m_buffer = dst, m_capacity = n\<rparr>\<rparr>" by simp
  have ldst: "length dst = length b" using relocate_length(1)[OF rel] by simp
  have tk: "take (m_size v) dst = take (m_size v) ?buf"
    using relocate_Inr_take[OF rel] len le fit by simp
  have "length b \<le> n" using Allocate_requested_length[OF b] .
  then show ?thesis
    using v' ldst tk True fit by (simp add: Capacity_def elements_def max_def)
qed

lemma Reserve_Returned_valid:
  assumes "valid v" "Reserve T n v = Returned v' u"
    "n \<le> length (m_buffer (m_data v'))"
  shows "valid v'"
proof (cases "n > Capacity v")
  case False
  with assms(1,2) show ?thesis by (simp add: Reserve_def)
next
  case True
  from Reserve_Returned[OF assms(1,2)] True assms(3) show ?thesis
    by (simp add: valid_def Capacity_def max_def)
qed

lemma Reserve_Returned_fits:
  assumes "valid v" "Reserve T n v = Returned v' u" "0 < size_of T" "n * size_of T < 2 ^ 64"
  shows "valid v'"
proof (cases "n > Capacity v")
  case False
  with assms(1,2) show ?thesis by (simp add: Reserve_def)
next
  case True
  have "\<exists>b. Allocate_requested T n = Some b"
    using assms(2) True
    by (cases "Allocate_requested T n") (simp_all add: Reserve_def RawMemory_requested_def)
  then obtain b where b: "Allocate_requested T n = Some b" by blast
  then have bn: "length b = n"
    using Allocate_requested_fits_Some[OF assms(3,4)] by simp
  have nd: "RawMemory_requested T n = Some \<lparr>m_buffer = b, m_capacity = n\<rparr>"
    using b by (simp add: RawMemory_requested_def)
  have fit: "m_size v \<le> length b"
    using assms(2) True nd by (cases "m_size v > length b") (simp_all add: Reserve_def)
  let ?rel = "relocate T (nothrow_move_constructible T \<or> \<not> copy_constructible T)
                (m_buffer (m_data v)) (m_size v) b"
  have "\<exists>src dst. ?rel = Inr (src, dst)"
  proof (cases ?rel)
    case (Inl p)
    then have "Reserve T n v = Threw (with_buffer v (fst p)) (snd p)"
      using True nd fit by (simp add: Reserve_def split: prod.splits)
    with assms(2) show ?thesis by simp
  next
    case (Inr p)
    then show ?thesis by (cases p) simp
  qed
  then obtain src dst where rel: "?rel = Inr (src, dst)" by blast
  have "Reserve T n v = Returned (v\<lparr>m_data := \<lparr>m_buffer = dst, m_capacity = n\<rparr>\<rparr>) ()"
    using True nd fit rel by (simp add: Reserve_def RawMemory_Swap_def)
  with assms(2) have v': "v' = v\<lparr>m_data := \<lparr>m_buffer = dst, m_capacity = n\<rparr>\<rparr>" by simp
  have "length dst = n" using relocate_length(1)[OF rel] bn by simp
  then have "n \<le> length (m_buffer (m_data v'))" using v' by simp
  from Reserve_Returned_valid[OF assms(1,2) this] show ?thesis .
qed



lemma PushBack_fwd_nothrow:
  assumes "nothrow_move_constructible T"
  shows "\<exists>v'. PushBack_fwd T cc (Some x) v = Returned v' ()"
proof (cases "Capacity v > m_size v")
  case True
  then show ?thesis by (simp add: PushBack_fwd_def)
next
  case False
  let ?nd = "RawMemory_new (max (Capacity v * 2) (m_size v + 1)) :: 'a RawMemory"
  obtain s' d where
    "relocate T (nothrow_move_constructible T \<or> \<not> cc) (m_buffer (m_data v))
       (m_size v) ((m_buffer ?nd)[m_size v := Live x]) = Inr (s', d)"
    using relocate_nothrow[OF assms] by blast
  with False show ?thesis
    by (simp add: PushBack_fwd_def Let_def split: prod.splits)
qed

section \<open>PopBack\<close>

lemma PopBack_buffer_unchanged:
  assumes "valid v" "raw_suffix v"
  shows "m_buffer (m_data (PopBack v)) = m_buffer (m_data v)"
proof (cases "m_size v < length (m_buffer (m_data v))")
  case True
  then have "\<not> is_Live (m_buffer (m_data v) ! m_size v)"
    using assms(2) by (auto simp: raw_suffix_def list_all_length dest: spec[of _ 0])
  then have "m_buffer (m_data v) ! m_size v = Raw"
    by (cases "m_buffer (m_data v) ! m_size v") simp_all
  then have "(m_buffer (m_data v))[m_size v := Raw] = m_buffer (m_data v)"
    by (metis list_update_id)
  then show ?thesis by (simp add: PopBack_def with_buffer_def destroy_at_def)
next
  case False
  then show ?thesis by (simp add: PopBack_def with_buffer_def destroy_at_def)
qed

lemma PopBack_keeps_last:
  assumes "valid v" "m_size v \<noteq> 0"
  shows "m_size (PopBack v) = m_size v - 1
     \<and> m_buffer (m_data (PopBack v)) ! (m_size v - 1) = m_buffer (m_data v) ! (m_size v - 1)"
proof -
  have "m_size v - 1 < length (m_buffer (m_data v))" "m_size v - 1 \<noteq> m_size v"
    using assms by (auto simp: valid_def)
  then show ?thesis
    using assms(2) by (simp add: PopBack_def with_buffer_def nth_destroy_at)
qed

text \<open>
  C1. \<open>PopBack\<close> on a non-empty vector: \<open>std::destroy_at\<close> is given the address
  \<open>data_ + size_\<close>, the slot after the last element, and only then is \<open>size_\<close>
  decremented. On the full vector [7] (capacity 1) and on [7, 8] with capacity 3 the size
  goes down by one, but the last element (index \<open>size - 1\<close>: 7, respectively 8) is still
  constructed in its slot afterwards: it has not been destroyed. Lemma
  \<open>PopBack_keeps_last\<close> has the same for every valid non-empty vector.
\<close>

theorem PopBack_last_element_not_destroyed:
  "PopBack (vector_of [7 :: int] 1)
     = \<lparr>m_data = \<lparr>m_buffer = [Live 7], m_capacity = 1\<rparr>, m_size = 0\<rparr>
   \<and> PopBack (vector_of [7 :: int, 8] 3)
     = \<lparr>m_data = \<lparr>m_buffer = [Live 7, Live 8, Raw], m_capacity = 3\<rparr>, m_size = 1\<rparr>"
  by (simp add: PopBack_def vector_of_def with_buffer_def destroy_at_def)



section \<open>Resize\<close>

lemma Resize_grow_Returned:
  assumes "valid v" "m_size v < n" "Resize T n v = Returned v' u"
  shows "m_size v' = n \<and> valid v' \<and> Capacity v' = max n (Capacity v) \<and>
     (\<exists>d. value_init T = Some d \<and> elements v' = elements v @ replicate (n - m_size v) (Live d))"
proof -
  have "\<exists>v1. Reserve T n v = Returned v1 ()"
    using assms(2,3) by (cases "Reserve T n v") (auto simp: Resize_def)
  then obtain v1 where res: "Reserve T n v = Returned v1 ()" by blast
  let ?b1 = "m_buffer (m_data v1)"
  have fit: "n \<le> length ?b1"
    using assms(2,3) res by (cases "n > length ?b1") (simp_all add: Resize_def)
  from Reserve_Returned[OF assms(1) res] have
    s1: "m_size v1 = m_size v" and el1: "elements v1 = elements v" and
    cap1: "Capacity v1 = max n (Capacity v)" by simp_all
  have val1: "valid v1" using Reserve_Returned_valid[OF assms(1) res fit] .
  have len1: "length ?b1 = Capacity v1" using val1 by (simp add: valid_def Capacity_def)
  have "\<exists>b. uninitialized_value_construct_n T ?b1 (m_size v) (n - m_size v) = Inr b"
    using assms(2,3) res s1 fit
    by (cases "uninitialized_value_construct_n T ?b1 (m_size v) (n - m_size v)")
       (auto simp: Resize_def)
  then obtain b where uvc: "uninitialized_value_construct_n T ?b1 (m_size v) (n - m_size v) = Inr b"
    by blast
  from assms(2,3) res s1 uvc fit have v': "v' = (with_buffer v1 b)\<lparr>m_size := n\<rparr>"
    by (simp add: Resize_def)
  have lb: "length b = Capacity v1" using uninitialized_value_construct_n_length(1)[OF uvc] len1 by simp
  obtain d where d: "value_init T = Some d"
    using uninitialized_value_construct_n_Inr_init[OF uvc] assms(2) by auto
  have n_le: "n \<le> length b" using lb cap1 by simp
  have "take n b = take (m_size v) ?b1 @ replicate (n - m_size v) (Live d)"
  proof (rule nth_equalityI)
    show "length (take n b) = length (take (m_size v) ?b1 @ replicate (n - m_size v) (Live d))"
      using n_le assms(2) len1 lb by simp
    fix k assume "k < length (take n b)"
    then have k: "k < n" by simp
    show "take n b ! k = (take (m_size v) ?b1 @ replicate (n - m_size v) (Live d)) ! k"
    proof (cases "k < m_size v")
      case True
      then have "b ! k = ?b1 ! k"
        using uninitialized_value_construct_n_outside[OF uvc, of k] by simp
      with True k n_le lb len1 show ?thesis by (simp add: nth_append)
    next
      case False
      then have "b ! k = Live d"
        using uninitialized_value_construct_n_inside[OF uvc _ _ _ d, of k] k n_le lb len1 by simp
      with False k n_le lb len1 show ?thesis by (simp add: nth_append)
    qed
  qed
  then have "elements v' = elements v @ replicate (n - m_size v) (Live d)"
    using el1 s1 v' by (simp add: elements_def with_buffer_def)
  moreover have "valid v'" using v' val1 lb n_le by (simp add: valid_def with_buffer_def Capacity_def)
  moreover have "Capacity v' = max n (Capacity v)" using v' cap1 by (simp add: Capacity_def with_buffer_def)
  ultimately show ?thesis using v' d by simp
qed

lemma Resize_shrink:
  assumes "valid v" "n < m_size v"
  shows "Resize T n v =
     Returned \<lparr>m_data = \<lparr>m_buffer = take n (m_buffer (m_data v)) @ replicate (m_size v - n) Raw
                                     @ drop (m_size v) (m_buffer (m_data v)),
                           m_capacity = m_capacity (m_data v)\<rparr>,
               m_size = n\<rparr> ()"
proof -
  have "n + (m_size v - n) \<le> length (m_buffer (m_data v))"
    using assms by (simp add: valid_def)
  from destroy_n_eq[OF this] assms(2) show ?thesis
    by (simp add: Resize_def with_buffer_def)
qed


text \<open>
  Requests of a size that wraps or is refused, on \<open>Vector<int>\<close>: \<open>Reserve(2^62)\<close> asks
  for \<open>2^64 mod 2^64 = 0\<close> bytes and returns with capacity \<open>2^62\<close> over a block without
  slots; \<open>Resize(2^62)\<close> then constructs past the end of that block; \<open>Reserve(2^61)\<close>
  and \<open>Resize(2^61)\<close> ask for \<open>2^63\<close> bytes and are refused, the vector unchanged.
\<close>

lemma wrapped_and_refused_requests:
  "Reserve int_element (2 ^ 62) Vector_default
     = Returned \<lparr>m_data = \<lparr>m_buffer = [], m_capacity = 2 ^ 62\<rparr>, m_size = 0\<rparr> ()"
  "Resize int_element (2 ^ 62) Vector_default = MemoryFault"
  "Reserve int_element (2 ^ 61) Vector_default = Threw Vector_default []"
  "Resize int_element (2 ^ 61) Vector_default = Threw Vector_default []"
proof -
  have w: "(2 ^ 62 * 4) mod 2 ^ 64 = (0 :: nat)" by simp
  have a62: "Allocate_requested int_element (2 ^ 62) = Some []"
    using w by (simp add: Allocate_requested_def int_element_def refuses_large_def)
  have a61: "Allocate_requested int_element (2 ^ 61) = None"
    by (simp add: Allocate_requested_def int_element_def refuses_large_def)
  show r: "Reserve int_element (2 ^ 62) Vector_default
     = Returned \<lparr>m_data = \<lparr>m_buffer = [], m_capacity = 2 ^ 62\<rparr>, m_size = 0\<rparr> ()"
    using a62
    by (simp add: Reserve_def RawMemory_requested_def Capacity_def Vector_default_def
        RawMemory_default_def relocate_def int_element_def DestroyN_def RawMemory_Swap_def)
  show "Resize int_element (2 ^ 62) Vector_default = MemoryFault"
    using r by (simp add: Resize_def Vector_default_def)
  show t: "Reserve int_element (2 ^ 61) Vector_default = Threw Vector_default []"
    using a61
    by (simp add: Reserve_def RawMemory_requested_def Capacity_def Vector_default_def
        RawMemory_default_def)
  show "Resize int_element (2 ^ 61) Vector_default = Threw Vector_default []"
    using t by (simp add: Resize_def Vector_default_def)
qed



section \<open>Swap and self-assignment\<close>

lemma std_swap_distinct:
  "a \<noteq> b \<Longrightarrow> std_swap get put a b s = s(a := put (get (s b)) (s a), b := put (get (s a)) (s b))"
  by (simp add: std_swap_def Let_def)

lemma std_swap_same:
  "(\<And>v. put (get v) v = v) \<Longrightarrow> std_swap get put a a s = s"
  by (simp add: std_swap_def Let_def)

lemma Vector_overwrite:
  "(x :: 'a Vector)\<lparr>m_data := (m_data x)\<lparr>m_buffer := m_buffer (m_data y),
                                            m_capacity := m_capacity (m_data y)\<rparr>,
                    m_size := m_size y\<rparr> = y"
  by (auto intro!: Vector.equality RawMemory.equality)

text \<open>
  C10. \<open>a.Swap(b)\<close> exchanges the whole states of the vectors at the two addresses: block
  (so the elements), capacity and size of each become those the other had, and no other
  object changes; when \<open>b\<close> is \<open>a\<close> itself nothing changes. \<open>Swap\<close> is \<open>noexcept\<close>: the
  function has no outcome other than the new store.
\<close>

theorem Swap_exchanges:
  "Vector_Swap a b s = s(a := s b, b := s a)"
proof (cases "a = b")
  case True
  then show ?thesis
    by (simp add: Vector_Swap_def RawMemory_Swap_at_def std_swap_same)
next
  case False
  then show ?thesis
    by (simp add: Vector_Swap_def RawMemory_Swap_at_def std_swap_distinct Vector_overwrite)
qed

text \<open>
  C9. Assigning a vector to itself, by copy assignment or by move assignment, returns and
  leaves the store, and so the vector's size, capacity and elements, exactly as they were.
\<close>

theorem self_assignment:
  "copy_assign T a a s = Returned s () \<and> move_assign a a s = s"
  by (simp add: copy_assign_def move_assign_def)

section \<open>Copy assignment\<close>

lemma copy_construct_None_iff:
  "copy_construct T s = None \<longleftrightarrow> (\<exists>x. s = Live x \<and> copy_ctor_throws T x)"
  by (cases s) (simp_all add: copy_construct_def)

lemma copy_assign_slot_None_iff:
  "copy_assign_slot T s = None \<longleftrightarrow> (\<exists>x. s = Live x \<and> copy_assign_throws T x)"
  by (cases s) (simp_all add: copy_assign_slot_def)

lemma uninitialized_copy_n_Inr_iff:
  "(\<exists>d. uninitialized_copy_n T src i n dst j = Inr d)
     \<longleftrightarrow> (\<forall>m<n. copy_construct T (slot_at src (i + m)) \<noteq> None)"
proof (induction n arbitrary: i dst j)
  case 0
  then show ?case by simp
next
  case (Suc n)
  show ?case
  proof (cases "copy_construct T (slot_at src i)")
    case None
    then show ?thesis by (auto intro: exI[of _ 0])
  next
    case (Some s)
    have "(\<exists>d. uninitialized_copy_n T src i (Suc n) dst j = Inr d)
        \<longleftrightarrow> (\<exists>d. uninitialized_copy_n T src (Suc i) n (dst[j := s]) (Suc j) = Inr d)"
      using Some by (auto split: sum.splits)
    also have "\<dots> \<longleftrightarrow> (\<forall>m<n. copy_construct T (slot_at src (Suc i + m)) \<noteq> None)"
      by (rule Suc.IH)
    also have "\<dots> \<longleftrightarrow> (\<forall>m<Suc n. copy_construct T (slot_at src (i + m)) \<noteq> None)"
      using Some by (auto simp: less_Suc_eq_0_disj)
    finally show ?thesis .
  qed
qed

lemma copy_assign_loop_Returned:
  "copy_assign_loop T rd d i n = Returned d' u \<Longrightarrow>
   m_capacity d' = m_capacity d \<and> length (m_buffer d') = length (m_buffer d)"
proof (induction n arbitrary: d i)
  case 0
  then show ?case by simp
next
  case (Suc n)
  from Suc.prems obtain s where
    rec: "copy_assign_loop T rd (d\<lparr>m_buffer := (m_buffer d)[i := s]\<rparr>) (Suc i) n = Returned d' u"
    by (auto split: if_splits option.splits)
  from Suc.IH[OF rec] show ?case by simp
qed

lemma copy_assign_loop_outside:
  "copy_assign_loop T rd d i n = Returned d' u \<Longrightarrow> k < i \<or> i + n \<le> k \<Longrightarrow>
   m_buffer d' ! k = m_buffer d ! k"
proof (induction n arbitrary: d i)
  case 0
  then show ?case by simp
next
  case (Suc n)
  from Suc.prems(1) obtain s where
    rec: "copy_assign_loop T rd (d\<lparr>m_buffer := (m_buffer d)[i := s]\<rparr>) (Suc i) n = Returned d' u"
    by (auto split: if_splits option.splits)
  from Suc.prems(2) have "k < Suc i \<or> Suc i + n \<le> k" and "k \<noteq> i" by auto
  with Suc.IH[OF rec] show ?case by simp
qed

lemma copy_assign_loop_inside:
  "copy_assign_loop T rd d i n = Returned d' u \<Longrightarrow> m < n \<Longrightarrow> i + m < length (m_buffer d) \<Longrightarrow>
   m_buffer d' ! (i + m) = slot_at (m_buffer rd) (i + m)"
proof (induction n arbitrary: d i m)
  case 0
  then show ?case by simp
next
  case (Suc n)
  from Suc.prems(1) obtain s where
    s: "copy_assign_slot T (slot_at (m_buffer rd) i) = Some s" and
    rec: "copy_assign_loop T rd (d\<lparr>m_buffer := (m_buffer d)[i := s]\<rparr>) (Suc i) n = Returned d' u"
    by (auto split: if_splits option.splits)
  have s_eq: "s = slot_at (m_buffer rd) i" using s by (rule copy_assign_slot_Some)
  show ?case
  proof (cases m)
    case 0
    have "m_buffer d' ! i = (m_buffer d)[i := s] ! i"
      using copy_assign_loop_outside[OF rec, of i] by simp
    with 0 Suc.prems(3) s_eq show ?thesis by simp
  next
    case (Suc m')
    with Suc.prems have "m' < n"
      and "Suc i + m' < length (m_buffer (d\<lparr>m_buffer := (m_buffer d)[i := s]\<rparr>))" by simp_all
    from Suc.IH[OF rec this] Suc show ?thesis by simp
  qed
qed

lemma copy_assign_loop_Returned_iff:
  "i + n \<le> m_capacity d \<Longrightarrow> i + n \<le> m_capacity rd \<Longrightarrow>
   (\<exists>d'. copy_assign_loop T rd d i n = Returned d' ())
     \<longleftrightarrow> (\<forall>m<n. copy_assign_slot T (slot_at (m_buffer rd) (i + m)) \<noteq> None)"
proof (induction n arbitrary: d i)
  case 0
  then show ?case by simp
next
  case (Suc n)
  have ok: "index_ok d i \<and> index_ok rd i" using Suc.prems by (simp add: index_ok_def)
  show ?case
  proof (cases "copy_assign_slot T (slot_at (m_buffer rd) i)")
    case None
    then show ?thesis using ok by (auto intro: exI[of _ 0])
  next
    case (Some s)
    let ?d = "d\<lparr>m_buffer := (m_buffer d)[i := s]\<rparr>"
    have "(\<exists>d'. copy_assign_loop T rd d i (Suc n) = Returned d' ())
        \<longleftrightarrow> (\<exists>d'. copy_assign_loop T rd ?d (Suc i) n = Returned d' ())"
      using Some ok by simp
    also have "\<dots> \<longleftrightarrow> (\<forall>m<n. copy_assign_slot T (slot_at (m_buffer rd) (Suc i + m)) \<noteq> None)"
      using Suc.prems by (intro Suc.IH) simp_all
    also have "\<dots> \<longleftrightarrow> (\<forall>m<Suc n. copy_assign_slot T (slot_at (m_buffer rd) (i + m)) \<noteq> None)"
      using Some by (auto simp: less_Suc_eq_0_disj)
    finally show ?thesis .
  qed
qed

lemma Vector_copy_Inr:
  assumes "valid rhs" "Vector_copy T rhs = Inr c"
  shows "c = \<lparr>m_data = \<lparr>m_buffer = elements rhs, m_capacity = m_size rhs\<rparr>, m_size = m_size rhs\<rparr>"
proof -
  let ?n = "m_size rhs" and ?src = "m_buffer (m_data rhs)"
  from assms(2) obtain b where
    ucn: "uninitialized_copy_n T ?src 0 ?n (Allocate ?n) 0 = Inr b" and
    c: "c = \<lparr>m_data = \<lparr>m_buffer = b, m_capacity = ?n\<rparr>, m_size = ?n\<rparr>"
    by (auto simp: Vector_copy_def RawMemory_new_def Let_def split: sum.splits)
  have lb: "length b = ?n" using uninitialized_copy_n_length(1)[OF ucn] by (simp add: Allocate_def)
  have le: "?n \<le> length ?src" using assms(1) by (simp add: valid_def)
  have "b = take ?n ?src"
  proof (rule nth_equalityI)
    show "length b = length (take ?n ?src)" using lb le by simp
    fix k assume "k < length b"
    then have k: "k < ?n" using lb by simp
    then have "b ! (0 + k) = slot_at ?src (0 + k)"
      using uninitialized_copy_n_Inr_inside[OF ucn, of k] by (simp add: Allocate_def)
    with k le show "b ! k = take ?n ?src ! k" by (simp add: slot_at_def)
  qed
  with c show ?thesis by (simp add: elements_def)
qed

lemma Vector_Swap_local_eq: "Vector_Swap_local x y = (y, x)"
  by (auto simp: Vector_Swap_local_def RawMemory_Swap_def intro!: Vector.equality RawMemory.equality)

text \<open>On two distinct objects the member \<open>Swap\<close> is the exchange used for locals.\<close>

lemma Vector_Swap_distinct:
  assumes "a \<noteq> b"
  shows "Vector_Swap a b s
     = (case Vector_Swap_local (s a) (s b) of (x, y) \<Rightarrow> s(a := x, b := y))"
  using assms
  by (simp add: Vector_Swap_def RawMemory_Swap_at_def std_swap_distinct Vector_overwrite
      Vector_Swap_local_eq)

lemma copy_assign_body_grow:
  assumes "valid rhs" "m_size rhs > m_capacity (m_data v)"
  shows "(copy_assign_body T rhs v = Returned v' u \<longrightarrow>
            v' = \<lparr>m_data = \<lparr>m_buffer = elements rhs, m_capacity = m_size rhs\<rparr>,
                  m_size = m_size rhs\<rparr>)
       \<and> (copy_assign_body T rhs v = Threw v' f \<longrightarrow> v' = v)
       \<and> ((\<exists>w. copy_assign_body T rhs v = Returned w ())
            \<longleftrightarrow> (\<forall>m<m_size rhs. copy_construct T (slot_at (m_buffer (m_data rhs)) m) \<noteq> None))"
proof (cases "Vector_copy T rhs")
  case (Inl b)
  then have body: "copy_assign_body T rhs v = Threw v b"
    using assms(2) by (simp add: copy_assign_body_def)
  have "\<not> (\<exists>d. uninitialized_copy_n T (m_buffer (m_data rhs)) 0 (m_size rhs)
                 (m_buffer (RawMemory_new (m_size rhs))) 0 = Inr d)"
    using Inl by (auto simp: Vector_copy_def Let_def)
  then have "\<not> (\<forall>m<m_size rhs. copy_construct T (slot_at (m_buffer (m_data rhs)) m) \<noteq> None)"
    using uninitialized_copy_n_Inr_iff[of T "m_buffer (m_data rhs)" 0 "m_size rhs"] by simp
  with body show ?thesis by simp
next
  case (Inr c)
  then have body: "copy_assign_body T rhs v = Returned c ()"
    using assms(2) by (simp add: copy_assign_body_def Vector_Swap_local_eq)
  have "\<exists>d. uninitialized_copy_n T (m_buffer (m_data rhs)) 0 (m_size rhs)
                 (m_buffer (RawMemory_new (m_size rhs))) 0 = Inr d"
    using Inr by (auto simp: Vector_copy_def Let_def split: sum.splits)
  then have "\<forall>m<m_size rhs. copy_construct T (slot_at (m_buffer (m_data rhs)) m) \<noteq> None"
    using uninitialized_copy_n_Inr_iff[of T "m_buffer (m_data rhs)" 0 "m_size rhs"] by simp
  with body Vector_copy_Inr[OF assms(1) Inr] show ?thesis by auto
qed

lemma copy_assign_body_in_place_Returned:
  assumes "valid v" "valid rhs" "m_size rhs \<le> m_capacity (m_data v)"
    "copy_assign_body T rhs v = Returned v' u"
  shows "v' = \<lparr>m_data = \<lparr>m_buffer = elements rhs @ replicate (m_size v - m_size rhs) Raw
                                 @ drop (max (m_size v) (m_size rhs)) (m_buffer (m_data v)),
                            m_capacity = m_capacity (m_data v)\<rparr>,
                m_size = m_size rhs\<rparr>"
proof -
  let ?n = "m_size v" and ?r = "m_size rhs"
  let ?buf = "m_buffer (m_data v)" and ?rbuf = "m_buffer (m_data rhs)"
  have lv: "length ?buf = m_capacity (m_data v)" and nv: "?n \<le> length ?buf"
    using assms(1) by (simp_all add: valid_def)
  have lr: "length ?rbuf = m_capacity (m_data rhs)" and nr: "?r \<le> length ?rbuf"
    using assms(2) by (simp_all add: valid_def)
  have rv: "?r \<le> length ?buf" using assms(3) lv by simp
  show ?thesis
  proof (cases "?r \<ge> ?n")
    case True
    let ?loop = "copy_assign_loop T (m_data rhs) (m_data v) 0 ?n"
    have "\<exists>d. ?loop = Returned d ()"
      using assms(3,4) True by (cases ?loop) (auto simp: copy_assign_body_def Size_def)
    then obtain d where loop: "?loop = Returned d ()" by blast
    have cd: "m_capacity d = m_capacity (m_data v)" and ld: "length (m_buffer d) = length ?buf"
      using copy_assign_loop_Returned[OF loop] by simp_all
    let ?ucn = "uninitialized_copy_n T ?rbuf ?n (?r - ?n) (m_buffer d) ?n"
    have "\<exists>b. ?ucn = Inr b"
      using assms(3,4) True loop by (cases ?ucn) (auto simp: copy_assign_body_def Size_def)
    then obtain b where ucn: "?ucn = Inr b" by blast
    from assms(3,4) True loop ucn have
      v': "v' = \<lparr>m_data = d\<lparr>m_buffer := b\<rparr>, m_size = ?r\<rparr>"
      by (simp add: copy_assign_body_def Size_def)
    have lb: "length b = length ?buf" using uninitialized_copy_n_length(1)[OF ucn] ld by simp
    have "b = take ?r ?rbuf @ drop ?r ?buf"
    proof (rule nth_equalityI)
      show "length b = length (take ?r ?rbuf @ drop ?r ?buf)" using lb nr rv by simp
      fix k assume "k < length b"
      then have k: "k < length ?buf" using lb by simp
      consider "k < ?n" | "?n \<le> k" "k < ?r" | "?r \<le> k" by linarith
      then show "b ! k = (take ?r ?rbuf @ drop ?r ?buf) ! k"
      proof cases
        case 1
        have "b ! k = m_buffer d ! k" using uninitialized_copy_n_Inr_outside[OF ucn, of k] 1 by simp
        also have "\<dots> = slot_at ?rbuf k"
          using copy_assign_loop_inside[OF loop, of k] 1 k by simp
        finally show ?thesis using 1 True nr by (simp add: nth_append slot_at_def)
      next
        case 2
        then have "b ! (?n + (k - ?n)) = slot_at ?rbuf (?n + (k - ?n))"
          using uninitialized_copy_n_Inr_inside[OF ucn, of "k - ?n"] k ld by simp
        then show ?thesis using 2 nr by (simp add: nth_append slot_at_def)
      next
        case 3
        with True have "b ! k = m_buffer d ! k"
          using uninitialized_copy_n_Inr_outside[OF ucn, of k] by simp
        also have "\<dots> = ?buf ! k"
          using copy_assign_loop_outside[OF loop, of k] 3 True by simp
        finally show ?thesis using 3 nr k by (simp add: nth_append)
      qed
    qed
    with v' cd True show ?thesis
      by (auto simp: elements_def max_def intro!: Vector.equality RawMemory.equality)
  next
    case False
    then have lt: "?r < ?n" by simp
    let ?loop = "copy_assign_loop T (m_data rhs) (m_data v) 0 ?r"
    have "\<exists>d. ?loop = Returned d ()"
      using assms(3,4) lt by (cases ?loop) (auto simp: copy_assign_body_def Size_def)
    then obtain d where loop: "?loop = Returned d ()" by blast
    have cd: "m_capacity d = m_capacity (m_data v)" and ld: "length (m_buffer d) = length ?buf"
      using copy_assign_loop_Returned[OF loop] by simp_all
    from assms(3,4) lt loop have
      v': "v' = \<lparr>m_data = d\<lparr>m_buffer := destroy_n (m_buffer d) ?r (?n - ?r)\<rparr>, m_size = ?r\<rparr>"
      by (simp add: copy_assign_body_def Size_def Let_def)
    have "?r + (?n - ?r) \<le> length (m_buffer d)" using lt nv ld by simp
    from destroy_n_eq[OF this] lt have
      dn: "destroy_n (m_buffer d) ?r (?n - ?r)
             = take ?r (m_buffer d) @ replicate (?n - ?r) Raw @ drop ?n (m_buffer d)"
      by simp
    have t: "take ?r (m_buffer d) = take ?r ?rbuf"
    proof (rule nth_take_lemma)
      show "?r \<le> length (m_buffer d)" using ld rv by simp
      show "?r \<le> length ?rbuf" by fact
      fix k show "k < ?r \<longrightarrow> m_buffer d ! k = ?rbuf ! k"
        using copy_assign_loop_inside[OF loop, of k] rv nr by (simp add: slot_at_def)
    qed
    have dr: "drop ?n (m_buffer d) = drop ?n ?buf"
    proof (rule nth_equalityI)
      show "length (drop ?n (m_buffer d)) = length (drop ?n ?buf)" using ld by simp
      fix k assume "k < length (drop ?n (m_buffer d))"
      then show "drop ?n (m_buffer d) ! k = drop ?n ?buf ! k"
        using copy_assign_loop_outside[OF loop, of "?n + k"] lt ld by simp
    qed
    from v' dn t dr cd lt show ?thesis
      by (auto simp: elements_def max_def intro!: Vector.equality RawMemory.equality)
  qed
qed

lemma copy_assign_body_in_place_Returned_iff:
  assumes "valid v" "valid rhs" "m_size rhs \<le> m_capacity (m_data v)"
  shows "(\<exists>w. copy_assign_body T rhs v = Returned w ())
     \<longleftrightarrow> (\<forall>k<m_size rhs.
            if k < m_size v then copy_assign_slot T (slot_at (m_buffer (m_data rhs)) k) \<noteq> None
            else copy_construct T (slot_at (m_buffer (m_data rhs)) k) \<noteq> None)"
proof -
  let ?n = "m_size v" and ?r = "m_size rhs"
  let ?buf = "m_buffer (m_data v)" and ?rbuf = "m_buffer (m_data rhs)"
  have nv: "?n \<le> m_capacity (m_data v)" using assms(1) by (simp add: valid_def)
  have nr: "?r \<le> m_capacity (m_data rhs)" using assms(2) by (simp add: valid_def)
  show ?thesis
  proof (cases "?r \<ge> ?n")
    case True
    let ?loop = "copy_assign_loop T (m_data rhs) (m_data v) 0 ?n"
    have loop_iff: "(\<exists>d. ?loop = Returned d ())
        \<longleftrightarrow> (\<forall>m<?n. copy_assign_slot T (slot_at ?rbuf m) \<noteq> None)"
      using copy_assign_loop_Returned_iff[of 0 ?n "m_data v" "m_data rhs" T] nv nr True by simp
    have ucn_iff: "\<And>d. (\<exists>b. uninitialized_copy_n T ?rbuf ?n (?r - ?n) (m_buffer d) ?n = Inr b)
        \<longleftrightarrow> (\<forall>m<?r - ?n. copy_construct T (slot_at ?rbuf (?n + m)) \<noteq> None)"
      by (rule uninitialized_copy_n_Inr_iff)
    have split: "(\<forall>k<?r. if k < ?n then copy_assign_slot T (slot_at ?rbuf k) \<noteq> None
                         else copy_construct T (slot_at ?rbuf k) \<noteq> None)
        \<longleftrightarrow> (\<forall>m<?n. copy_assign_slot T (slot_at ?rbuf m) \<noteq> None)
          \<and> (\<forall>m<?r - ?n. copy_construct T (slot_at ?rbuf (?n + m)) \<noteq> None)"
      (is "?L \<longleftrightarrow> ?A \<and> ?B")
    proof
      assume L: ?L
      have ?A using L True by (metis less_le_trans)
      moreover have ?B
      proof (intro allI impI)
        fix m assume "m < ?r - ?n"
        then have "?n + m < ?r" by simp
        with L have "if ?n + m < ?n then copy_assign_slot T (slot_at ?rbuf (?n + m)) \<noteq> None
                     else copy_construct T (slot_at ?rbuf (?n + m)) \<noteq> None" by blast
        then show "copy_construct T (slot_at ?rbuf (?n + m)) \<noteq> None" by simp
      qed
      ultimately show "?A \<and> ?B" ..
    next
      assume AB: "?A \<and> ?B"
      show ?L
      proof (intro allI impI)
        fix k assume k: "k < ?r"
        show "if k < ?n then copy_assign_slot T (slot_at ?rbuf k) \<noteq> None
              else copy_construct T (slot_at ?rbuf k) \<noteq> None"
        proof (cases "k < ?n")
          case True
          with AB show ?thesis by simp
        next
          case False
          then have "k - ?n < ?r - ?n" and "?n + (k - ?n) = k" using k by simp_all
          with AB False show ?thesis by metis
        qed
      qed
    qed
    show ?thesis
    proof (cases ?loop)
      case (Returned d u)
      then have A: ?A using loop_iff by auto
      show ?thesis
      proof (cases "uninitialized_copy_n T ?rbuf ?n (?r - ?n) (m_buffer d) ?n")
        case (Inl b)
        then have "\<not> ?B" using ucn_iff[of d] by auto
        moreover have "copy_assign_body T rhs v = Threw (v\<lparr>m_data := d\<lparr>m_buffer := b\<rparr>\<rparr>) []"
          using assms(3) True Returned Inl by (simp add: copy_assign_body_def Size_def)
        ultimately show ?thesis using split by auto
      next
        case (Inr b)
        then have ?B using ucn_iff[of d] by auto
        moreover have "\<exists>w. copy_assign_body T rhs v = Returned w ()"
          using assms(3) True Returned Inr by (simp add: copy_assign_body_def Size_def)
        ultimately show ?thesis using split A by auto
      qed
    next
      case (Threw d f)
      then have "\<not> ?A" using loop_iff by auto
      moreover have "copy_assign_body T rhs v = Threw (v\<lparr>m_data := d\<rparr>) f"
        using assms(3) True Threw by (simp add: copy_assign_body_def Size_def)
      ultimately show ?thesis using split by auto
    next
      case AssertFailed
      then have "\<not> ?A" using loop_iff by auto
      moreover have "copy_assign_body T rhs v = AssertFailed"
        using assms(3) True AssertFailed by (simp add: copy_assign_body_def Size_def)
      ultimately show ?thesis using split by auto
    next
      case MemoryFault
      then have "\<not> ?A" using loop_iff by auto
      moreover have "copy_assign_body T rhs v = MemoryFault"
        using assms(3) True MemoryFault by (simp add: copy_assign_body_def Size_def)
      ultimately show ?thesis using split by auto
    qed
  next
    case False
    then have lt: "?r < ?n" by simp
    let ?loop = "copy_assign_loop T (m_data rhs) (m_data v) 0 ?r"
    have loop_iff: "(\<exists>d. ?loop = Returned d ())
        \<longleftrightarrow> (\<forall>m<?r. copy_assign_slot T (slot_at ?rbuf m) \<noteq> None)"
      using copy_assign_loop_Returned_iff[of 0 ?r "m_data v" "m_data rhs" T] nv nr lt assms(3) by simp
    have "(\<exists>w. copy_assign_body T rhs v = Returned w ()) \<longleftrightarrow> (\<exists>d. ?loop = Returned d ())"
      using assms(3) lt by (cases ?loop) (auto simp: copy_assign_body_def Size_def Let_def)
    with loop_iff lt show ?thesis by auto
  qed
qed

lemma copy_construct_ok_iff:
  "copy_construct T s \<noteq> None \<longleftrightarrow> (\<forall>x. s = Live x \<longrightarrow> \<not> copy_ctor_throws T x)"
  by (cases s) (simp_all add: copy_construct_def)

lemma copy_assign_slot_ok_iff:
  "copy_assign_slot T s \<noteq> None \<longleftrightarrow> (\<forall>x. s = Live x \<longrightarrow> \<not> copy_assign_throws T x)"
  by (cases s) (simp_all add: copy_assign_slot_def)

lemma copy_construct_ex_iff:
  "(\<exists>y. copy_construct T s = Some y) \<longleftrightarrow> (\<forall>x. s = Live x \<longrightarrow> \<not> copy_ctor_throws T x)"
  by (cases s) (simp_all add: copy_construct_def)

lemma copy_assign_slot_ex_iff:
  "(\<exists>y. copy_assign_slot T s = Some y) \<longleftrightarrow> (\<forall>x. s = Live x \<longrightarrow> \<not> copy_assign_throws T x)"
  by (cases s) (simp_all add: copy_assign_slot_def)

lemma slot_at_elements:
  "valid v \<Longrightarrow> k < m_size v \<Longrightarrow> slot_at (m_buffer (m_data v)) k = elements v ! k"
  by (simp add: valid_def slot_at_def elements_def)

lemma length_elements: "valid v \<Longrightarrow> length (elements v) = m_size v"
  by (simp add: valid_def elements_def)

lemma copy_assign_outcomes:
  assumes "this \<noteq> rhs"
  shows "(copy_assign T this rhs s = Returned s' u
            \<longleftrightarrow> (\<exists>v'. copy_assign_body T (s rhs) (s this) = Returned v' u \<and> s' = s(this := v')))"
    and "(copy_assign T this rhs s = Threw s' f
            \<longleftrightarrow> (\<exists>v'. copy_assign_body T (s rhs) (s this) = Threw v' f \<and> s' = s(this := v')))"
  using assms
  by (cases "copy_assign_body T (s rhs) (s this)"; auto simp: copy_assign_def)+

text \<open>
  C7. Copy assignment between two distinct, valid vectors. Whenever it returns, the
  left-hand side has the size and the elements of \<open>rhs\<close>, and no other object has changed.
  When \<open>rhs.size\<close> exceeds the capacity of the left-hand side: a throw leaves the store as
  it was; a return leaves the left-hand side owning a new block of capacity exactly
  \<open>rhs.size\<close> that holds the copies; and it returns exactly when no copy constructor of
  an element of \<open>rhs\<close> throws. Otherwise the block is kept: a return leaves in it the
  elements of \<open>rhs\<close>, then raw slots where surplus elements of the left-hand side were
  destroyed, then the old slots beyond both sizes; and it returns exactly when copy
  assignment does not throw for the first \<open>min(size, rhs.size)\<close> elements of \<open>rhs\<close> and copy
  construction does not throw for the remaining ones.
\<close>

theorem copy_assignment:
  assumes "this \<noteq> rhs" "valid (s this)" "valid (s rhs)"
  shows
   "(copy_assign T this rhs s = Returned s' u \<longrightarrow>
        Size (s' this) = Size (s rhs) \<and> elements (s' this) = elements (s rhs)
        \<and> (\<forall>a. a \<noteq> this \<longrightarrow> s' a = s a))
  \<and> (m_size (s rhs) > Capacity (s this) \<longrightarrow>
        (copy_assign T this rhs s = Threw s' f \<longrightarrow> s' = s)
      \<and> (copy_assign T this rhs s = Returned s' u \<longrightarrow>
           s' this = \<lparr>m_data = \<lparr>m_buffer = elements (s rhs), m_capacity = m_size (s rhs)\<rparr>,
                      m_size = m_size (s rhs)\<rparr>)
      \<and> ((\<exists>w. copy_assign T this rhs s = Returned w ()) \<longleftrightarrow>
           (\<forall>k<m_size (s rhs). \<forall>x. elements (s rhs) ! k = Live x \<longrightarrow> \<not> copy_ctor_throws T x)))
  \<and> (m_size (s rhs) \<le> Capacity (s this) \<longrightarrow>
        (copy_assign T this rhs s = Returned s' u \<longrightarrow>
           s' this =
             \<lparr>m_data = \<lparr>m_buffer = elements (s rhs)
                            @ replicate (m_size (s this) - m_size (s rhs)) Raw
                            @ drop (max (m_size (s this)) (m_size (s rhs)))
                                (m_buffer (m_data (s this))),
                         m_capacity = m_capacity (m_data (s this))\<rparr>,
              m_size = m_size (s rhs)\<rparr>)
      \<and> ((\<exists>w. copy_assign T this rhs s = Returned w ()) \<longleftrightarrow>
           (\<forall>k<m_size (s rhs). \<forall>x. elements (s rhs) ! k = Live x \<longrightarrow>
               \<not> (if k < m_size (s this) then copy_assign_throws T x
                  else copy_ctor_throws T x))))"
    (is "?General \<and> (?big \<longrightarrow> ?G1 \<and> ?G2 \<and> ?G3) \<and> (?small \<longrightarrow> ?P1 \<and> ?P2)")
proof -
  let ?v = "s this" and ?r = "s rhs"
  let ?body = "copy_assign_body T ?r ?v"
  note out = copy_assign_outcomes[OF assms(1), of T s]
  have ex_iff: "(\<exists>w. copy_assign T this rhs s = Returned w ()) \<longleftrightarrow> (\<exists>w. ?body = Returned w ())"
    using out(1)[of _ "()"] by blast
  have el: "\<And>k. k < m_size ?r \<Longrightarrow> slot_at (m_buffer (m_data ?r)) k = elements ?r ! k"
    using slot_at_elements[OF assms(3)] .
  have le: "length (elements ?r) = m_size ?r" using length_elements[OF assms(3)] .
  have big: "?G1 \<and> ?G2 \<and> ?G3" if b: ?big
  proof -
    from b have gt: "m_size ?r > m_capacity (m_data ?v)" by (simp add: Capacity_def)
    note g = copy_assign_body_grow[OF assms(3) gt, of T]
    have ?G1
    proof
      assume "copy_assign T this rhs s = Threw s' f"
      then obtain v' where "?body = Threw v' f" and s': "s' = s(this := v')"
        using out(2)[of s' f] by blast
      with g[of v' u f] have "v' = s this" by blast
      with s' show "s' = s" by simp
    qed
    moreover have ?G2
    proof
      assume "copy_assign T this rhs s = Returned s' u"
      then obtain v' where "?body = Returned v' u" and s': "s' = s(this := v')"
        using out(1)[of s' u] by blast
      with g[of v' u f] have
        "v' = \<lparr>m_data = \<lparr>m_buffer = elements ?r, m_capacity = m_size ?r\<rparr>, m_size = m_size ?r\<rparr>"
        by blast
      with s' show "s' this = \<lparr>m_data = \<lparr>m_buffer = elements ?r, m_capacity = m_size ?r\<rparr>,
                      m_size = m_size ?r\<rparr>" by simp
    qed
    moreover have ?G3
      unfolding ex_iff using g[of "s this" u f] el by (simp add: copy_construct_ex_iff)
    ultimately show ?thesis by blast
  qed
  have small: "?P1 \<and> ?P2" if sm: ?small
  proof -
    from sm have le': "m_size ?r \<le> m_capacity (m_data ?v)" by (simp add: Capacity_def)
    have ?P1
    proof
      assume "copy_assign T this rhs s = Returned s' u"
      then obtain v' where b: "?body = Returned v' u" and s': "s' = s(this := v')"
        using out(1)[of s' u] by blast
      from copy_assign_body_in_place_Returned[OF assms(2,3) le' b] s'
      show "s' this =
             \<lparr>m_data = \<lparr>m_buffer = elements ?r
                            @ replicate (m_size ?v - m_size ?r) Raw
                            @ drop (max (m_size ?v) (m_size ?r)) (m_buffer (m_data ?v)),
                         m_capacity = m_capacity (m_data ?v)\<rparr>,
              m_size = m_size ?r\<rparr>" by simp
    qed
    moreover have ?P2
      unfolding ex_iff copy_assign_body_in_place_Returned_iff[OF assms(2,3) le', of T]
      using el by (auto simp: copy_construct_ex_iff copy_assign_slot_ex_iff split: if_splits)
    ultimately show ?thesis by blast
  qed
  have ?General
  proof (intro impI)
    assume ret: "copy_assign T this rhs s = Returned s' u"
    then have others: "\<forall>a. a \<noteq> this \<longrightarrow> s' a = s a" using out(1)[of s' u] by auto
    show "Size (s' this) = Size ?r \<and> elements (s' this) = elements ?r
          \<and> (\<forall>a. a \<noteq> this \<longrightarrow> s' a = s a)"
    proof (cases ?big)
      case True
      with big ret have "s' this = \<lparr>m_data = \<lparr>m_buffer = elements ?r, m_capacity = m_size ?r\<rparr>,
                      m_size = m_size ?r\<rparr>" by blast
      then show ?thesis using others le by (simp add: Size_def elements_def)
    next
      case False
      then have ?small by simp
      with small ret have "s' this =
             \<lparr>m_data = \<lparr>m_buffer = elements ?r
                            @ replicate (m_size ?v - m_size ?r) Raw
                            @ drop (max (m_size ?v) (m_size ?r)) (m_buffer (m_data ?v)),
                         m_capacity = m_capacity (m_data ?v)\<rparr>,
              m_size = m_size ?r\<rparr>" by blast
      then show ?thesis using others le by (simp add: Size_def elements_def)
    qed
  qed
  with big small show ?thesis by blast
qed

lemma copy_assign_body_examples:
  "copy_assign_body int_element (vector_of [5, 2, 7] 4) (vector_of [1, 2] 2)
     = Returned (vector_of [5, 2, 7] 3) ()"
  "copy_assign_body int_element (vector_of [1, 2] 2) (vector_of [5, 2, 7] 4)
     = Returned (vector_of [1, 2] 4) ()"
  "copy_assign_body throwing_copy_element (vector_of [5, 2, 7] 4) (vector_of [1, 2] 2)
     = Threw (vector_of [1, 2] 2) [Raw, Raw, Raw]"
  by code_simp+

theorem copy_assignment_witness:
  "(0 :: nat) \<noteq> 1 \<and> valid (two_vectors 0) \<and> valid (two_vectors 1)
   \<and> m_size (two_vectors 1) > Capacity (two_vectors 0)
   \<and> copy_assign int_element 0 1 two_vectors = Returned (two_vectors(0 := vector_of [5, 2, 7] 3)) ()
   \<and> Size (vector_of [5 :: int, 2, 7] 3) = Size (two_vectors 1)
   \<and> elements (vector_of [5 :: int, 2, 7] 3) = elements (two_vectors 1)
   \<and> copy_assign throwing_copy_element 0 1 two_vectors = Threw two_vectors [Raw, Raw, Raw]
   \<and> m_size (two_vectors 0) \<le> Capacity (two_vectors 1)
   \<and> copy_assign int_element 1 0 two_vectors = Returned (two_vectors(1 := vector_of [1, 2] 4)) ()
   \<and> Capacity (vector_of [1 :: int, 2] 4) = Capacity (two_vectors 1)
   \<and> elements (vector_of [1 :: int, 2] 4) = elements (two_vectors 0)"
proof -
  have ne: "(0 :: nat) \<noteq> 1" "(1 :: nat) \<noteq> 0" by simp_all
  have v: "valid (two_vectors 0)" "valid (two_vectors 1)"
    by (simp_all add: two_vectors_def valid_def vector_of_def)
  have c: "m_size (two_vectors 1) > Capacity (two_vectors 0)"
    "m_size (two_vectors 0) \<le> Capacity (two_vectors 1)"
    by (simp_all add: two_vectors_def Capacity_def vector_of_def)
  have tv: "two_vectors 0 = vector_of [1, 2] 2" "two_vectors (Suc 0) = vector_of [5, 2, 7] 4"
    by (simp_all add: two_vectors_def)
  have same: "two_vectors(0 := vector_of [1, 2] 2) = two_vectors"
    using tv(1) by (metis fun_upd_triv)
  have a: "copy_assign int_element 0 1 two_vectors
             = Returned (two_vectors(0 := vector_of [5, 2, 7] 3)) ()"
    by (simp add: copy_assign_def tv copy_assign_body_examples)
  have t: "copy_assign throwing_copy_element 0 1 two_vectors = Threw two_vectors [Raw, Raw, Raw]"
    by (simp add: copy_assign_def tv copy_assign_body_examples same)
  have b: "copy_assign int_element 1 0 two_vectors
             = Returned (two_vectors(1 := vector_of [1, 2] 4)) ()"
    by (simp add: copy_assign_def tv copy_assign_body_examples)
  from copy_assignment[OF ne(1) v, of int_element "two_vectors(0 := vector_of [5, 2, 7] 3)" "()"] a
  have 1: "Size (vector_of [5 :: int, 2, 7] 3) = Size (two_vectors 1)
         \<and> elements (vector_of [5 :: int, 2, 7] 3) = elements (two_vectors 1)"
    by simp
  from copy_assignment[OF ne(1) v, of throwing_copy_element two_vectors "()" "[Raw, Raw, Raw]"] t c
  have 2: "two_vectors = two_vectors" by simp
  from copy_assignment[OF ne(2) v(2,1), of int_element "two_vectors(1 := vector_of [1, 2] 4)" "()"] b
  have 3: "elements (vector_of [1 :: int, 2] 4) = elements (two_vectors 0)"
    by simp
  have 4: "Capacity (vector_of [1 :: int, 2] 4) = Capacity (two_vectors 1)"
    by (simp add: two_vectors_def Capacity_def vector_of_def)
  from ne v c a t b 1 2 3 4 show ?thesis by simp
qed

section \<open>Capacity growth of the appends\<close>

lemma with_buffer_same_shape:
  "length b = length (m_buffer (m_data v)) \<Longrightarrow>
   Capacity (with_buffer v b) = Capacity v \<and> m_size (with_buffer v b) = m_size v \<and>
   (valid v \<longrightarrow> valid (with_buffer v b))"
  by (simp add: with_buffer_def Capacity_def valid_def)

lemma PushBack_copy_Threw:
  assumes "PushBack_copy T x v = Threw v' f"
  shows "Capacity v' = Capacity v \<and> m_size v' = m_size v \<and> (valid v \<longrightarrow> valid v')"
proof (cases "m_size v = Capacity v")
  case False
  with assms have "v' = v"
    by (auto simp: PushBack_copy_def split: if_splits option.splits)
  then show ?thesis by simp
next
  case True
  let ?nd = "RawMemory_new (if m_size v = 0 then 1 else m_size v * 2) :: 'a RawMemory"
  show ?thesis
  proof (cases "copy_assign_slot T (Live x)")
    case None
    with assms True have "v' = v"
      by (auto simp: PushBack_copy_def Let_def split: if_splits)
    then show ?thesis by simp
  next
    case (Some s)
    let ?rel = "relocate T (nothrow_move_constructible T \<or> \<not> copy_constructible T)
                  (m_buffer (m_data v)) (m_size v) ((m_buffer ?nd)[m_size v := s])"
    have ok: "index_ok ?nd (m_size v)" by (simp add: index_ok_def RawMemory_new_def)
    show ?thesis
    proof (cases ?rel)
      case (Inl p)
      obtain src dst where p: "p = (src, dst)" by (cases p)
      with Inl assms True Some ok have "v' = with_buffer v src"
        by (simp add: PushBack_copy_def Let_def)
      moreover have "length src = length (m_buffer (m_data v))"
        using relocate_length(2)[of T _ "m_buffer (m_data v)" "m_size v" _ src dst] Inl p by simp
      ultimately show ?thesis using with_buffer_same_shape by blast
    next
      case (Inr p)
      with assms True Some ok show ?thesis
        by (simp add: PushBack_copy_def Let_def split: prod.splits)
    qed
  qed
qed

lemma PushBack_fwd_Threw:
  assumes "PushBack_fwd T cc ctor v = Threw v' f"
  shows "Capacity v' = Capacity v \<and> m_size v' = m_size v \<and> (valid v \<longrightarrow> valid v')"
proof (cases ctor)
  case None
  with assms have "v' = v"
    by (auto simp: PushBack_fwd_def Let_def split: if_splits)
  then show ?thesis by simp
next
  case (Some x)
  show ?thesis
  proof (cases "Capacity v > m_size v")
    case True
    with assms Some show ?thesis by (simp add: PushBack_fwd_def)
  next
    case False
    let ?nd = "RawMemory_new (max (Capacity v * 2) (m_size v + 1)) :: 'a RawMemory"
    let ?rel = "relocate T (nothrow_move_constructible T \<or> \<not> cc)
                  (m_buffer (m_data v)) (m_size v) ((m_buffer ?nd)[m_size v := Live x])"
    show ?thesis
    proof (cases ?rel)
      case (Inl p)
      obtain src dst where p: "p = (src, dst)" by (cases p)
      with Inl assms False Some have "v' = with_buffer v src"
        by (simp add: PushBack_fwd_def Let_def)
      moreover have "length src = length (m_buffer (m_data v))"
        using relocate_length(2)[of T _ "m_buffer (m_data v)" "m_size v" _ src dst] Inl p by simp
      ultimately show ?thesis using with_buffer_same_shape by blast
    next
      case (Inr p)
      with assms False Some show ?thesis
        by (simp add: PushBack_fwd_def Let_def split: prod.splits)
    qed
  qed
qed

lemma EmplaceBack_Threw:
  assumes "EmplaceBack T ctor v = Threw v' f"
  shows "Capacity v' = Capacity v \<and> m_size v' = m_size v \<and> (valid v \<longrightarrow> valid v')"
proof (cases ctor)
  case None
  with assms have "v' = v"
    by (auto simp: EmplaceBack_def Let_def split: if_splits)
  then show ?thesis by simp
next
  case (Some x)
  show ?thesis
  proof (cases "m_size v = Capacity v")
    case False
    with assms Some show ?thesis by (simp add: EmplaceBack_def Let_def split: if_splits)
  next
    case True
    let ?nd = "RawMemory_new (if m_size v = 0 then 1 else m_size v * 2) :: 'a RawMemory"
    let ?rel = "relocate T (nothrow_move_constructible T \<or> \<not> copy_constructible T)
                  (m_buffer (m_data v)) (m_size v) ((m_buffer ?nd)[m_size v := Live x])"
    show ?thesis
    proof (cases ?rel)
      case (Inl p)
      obtain src dst where p: "p = (src, dst)" by (cases p)
      with Inl assms True Some have "v' = with_buffer v src"
        by (simp add: EmplaceBack_def Let_def)
      moreover have "length src = length (m_buffer (m_data v))"
        using relocate_length(2)[of T _ "m_buffer (m_data v)" "m_size v" _ src dst] Inl p by simp
      ultimately show ?thesis using with_buffer_same_shape by blast
    next
      case (Inr p)
      with assms True Some show ?thesis
        by (simp add: EmplaceBack_def Let_def split: prod.splits if_splits)
    qed
  qed
qed

text \<open>
  C5, as amended. On a valid vector an append (\<open>PushBack(const T&)\<close>, \<open>PushBack(U&&)\<close>,
  \<open>EmplaceBack\<close>) changes the capacity only if \<open>size == capacity\<close> when it is called. An
  append that returns then leaves capacity \<open>max(2 * old, 1)\<close> for the copy overload and
  \<open>max(2 * old, size + 1)\<close> for the forwarding overload and \<open>EmplaceBack\<close>; one that returns
  with \<open>size < capacity\<close>, and one that throws, leaves the capacity as it was. Pushing 1 to 5
  onto an empty \<open>Vector<int>\<close> one at a time, with either overload, shows the capacities
  0, 1, 2, 4, 4, 8 and ends with size 5 and capacity 8.
\<close>

theorem append_capacity:
  assumes "valid v"
  shows
   "(PushBack_copy T x v = Returned v' u \<longrightarrow>
       Capacity v' = (if m_size v = Capacity v then max (2 * Capacity v) 1 else Capacity v))
  \<and> (PushBack_fwd T cc ctor v = Returned v' u \<longrightarrow>
       Capacity v' =
         (if m_size v = Capacity v then max (2 * Capacity v) (m_size v + 1) else Capacity v))
  \<and> (EmplaceBack T ctor v = Returned v' r \<longrightarrow>
       Capacity v' =
         (if m_size v = Capacity v then max (2 * Capacity v) (m_size v + 1) else Capacity v))
  \<and> (PushBack_copy T x v = Threw v' f \<or> PushBack_fwd T cc ctor v = Threw v' f
       \<or> EmplaceBack T ctor v = Threw v' f \<longrightarrow> Capacity v' = Capacity v)
  \<and> capacities int_element (map OpPushBack_copy [1, 2, 3, 4, 5]) Vector_default
       = [0, 1, 2, 4, 4, 8]
  \<and> run int_element (map OpPushBack_copy [1, 2, 3, 4, 5]) Vector_default
       = Some (vector_of [1, 2, 3, 4, 5] 8)
  \<and> capacities int_element (map (\<lambda>x. OpPushBack_fwd True (Some x)) [1, 2, 3, 4, 5]) Vector_default
       = [0, 1, 2, 4, 4, 8]
  \<and> run int_element (map (\<lambda>x. OpPushBack_fwd True (Some x)) [1, 2, 3, 4, 5]) Vector_default
       = Some (vector_of [1, 2, 3, 4, 5] 8)
  \<and> Size (vector_of [1 :: int, 2, 3, 4, 5] 8) = 5 \<and> Capacity (vector_of [1 :: int, 2, 3, 4, 5] 8) = 8"
proof -
  have 1: "capacities int_element (map OpPushBack_copy [1, 2, 3, 4, 5]) Vector_default
       = [0, 1, 2, 4, 4, 8]" by code_simp
  have 2: "run int_element (map OpPushBack_copy [1, 2, 3, 4, 5]) Vector_default
       = Some (vector_of [1, 2, 3, 4, 5] 8)" by code_simp
  have 3: "capacities int_element (map (\<lambda>x. OpPushBack_fwd True (Some x)) [1, 2, 3, 4, 5])
             Vector_default = [0, 1, 2, 4, 4, 8]" by code_simp
  have 4: "run int_element (map (\<lambda>x. OpPushBack_fwd True (Some x)) [1, 2, 3, 4, 5]) Vector_default
       = Some (vector_of [1, 2, 3, 4, 5] 8)" by code_simp
  have 5: "Size (vector_of [1 :: int, 2, 3, 4, 5] 8) = 5"
    "Capacity (vector_of [1 :: int, 2, 3, 4, 5] 8) = 8"
    by (simp_all add: Size_def Capacity_def vector_of_def)
  show ?thesis
    using PushBack_copy_Returned(5)[OF assms, of T x v' u]
      PushBack_fwd_Returned[OF assms, of T cc ctor v' u]
      EmplaceBack_Returned[OF assms, of T ctor v' r]
      PushBack_copy_Threw[of T x v v' f] PushBack_fwd_Threw[of T cc ctor v v' f]
      EmplaceBack_Threw[of T ctor v v' f] 1 2 3 4 5
    by blast
qed

theorem append_capacity_witness:
  "valid (vector_of [1 :: int, 2] 2)
   \<and> PushBack_copy int_element 3 (vector_of [1, 2] 2) = Returned (vector_of [1, 2, 3] 4) ()
   \<and> PushBack_fwd int_element True (Some 3) (vector_of [1, 2] 2) = Returned (vector_of [1, 2, 3] 4) ()
   \<and> EmplaceBack int_element (Some 3) (vector_of [1, 2] 2) = Returned (vector_of [1, 2, 3] 4) 2
   \<and> m_size (vector_of [1 :: int, 2] 2) = Capacity (vector_of [1 :: int, 2] 2)
   \<and> Capacity (vector_of [1 :: int, 2, 3] 4) = max (2 * Capacity (vector_of [1 :: int, 2] 2)) 1
   \<and> PushBack_fwd throwing_copy_element True (Some 3) (vector_of [1, 2] 2)
       = Threw (vector_of [1, 2] 2) [Raw, Raw, Raw, Raw]
   \<and> Capacity (vector_of [1 :: int, 2] 2) = 2"
proof -
  let ?v = "vector_of [1 :: int, 2] 2"
  have h: "valid ?v" by (simp add: valid_def vector_of_def)
  have r: "PushBack_copy int_element 3 ?v = Returned (vector_of [1, 2, 3] 4) ()"
    "PushBack_fwd int_element True (Some 3) ?v = Returned (vector_of [1, 2, 3] 4) ()"
    "EmplaceBack int_element (Some 3) ?v = Returned (vector_of [1, 2, 3] 4) 2"
    by code_simp+
  have p: "PushBack_fwd throwing_copy_element True (Some 3) ?v = Threw ?v [Raw, Raw, Raw, Raw]"
    by code_simp
  have c: "m_size ?v = Capacity ?v" "Capacity ?v = 2"
    by (simp_all add: Capacity_def vector_of_def)
  from append_capacity[OF h, of int_element 3 "vector_of [1, 2, 3] 4" "()" True "Some 3" 2 "[]"] r c
  have 1: "Capacity (vector_of [1 :: int, 2, 3] 4) = max (2 * Capacity ?v) 1" by simp
  from append_capacity[OF h, of throwing_copy_element 3 ?v "()" True "Some 3" 2 "[Raw, Raw, Raw, Raw]"] p
  have 2: "Capacity ?v = Capacity ?v" by simp
  from h r c 1 2 p show ?thesis by simp
qed

text \<open>
  C5 as stated, with capacity changing only during an append, fails: \<open>Reserve(5)\<close> on an
  empty vector changes the capacity from 0 to 5 and appends nothing.
\<close>

theorem Reserve_changes_capacity:
  "Capacity (Vector_default :: int Vector) = 0
   \<and> Reserve int_element 5 Vector_default = Returned (vector_of [] 5) ()
   \<and> Capacity (vector_of ([] :: int list) 5) = 5"
  by (simp add: Reserve_def Capacity_def Vector_default_def RawMemory_default_def vector_of_def
      relocate_def int_element_def RawMemory_requested_def Allocate_requested_small DestroyN_def
      RawMemory_Swap_def)

section \<open>Exception safety of the forwarding appends\<close>

lemma set_Allocate: "s \<in> set (Allocate n) \<Longrightarrow> s = Raw"
  by (auto simp: Allocate_def split: if_splits)

lemma relocate_Inl_raw:
  assumes "relocate T by_move src n ((Allocate c)[i := Live x]) = Inl (s', d)" "i < c"
  shows "\<forall>s\<in>set (destroy_n d i 1). s = Raw"
proof
  fix s assume "s \<in> set (destroy_n d i 1)"
  then obtain k where k: "k < length (destroy_n d i 1)" and s: "s = destroy_n d i 1 ! k"
    by (auto simp: in_set_conv_nth)
  let ?nd = "(Allocate c)[i := Live x]"
  have ld: "length d = c"
    using relocate_length(2)[OF assms(1)] assms(2) by (simp add: Allocate_def)
  have kd: "k < length d" using k by simp
  show "s = Raw"
  proof (cases "k = i")
    case True
    then show ?thesis using s kd by (simp add: nth_destroy_at)
  next
    case False
    have "d ! k = ?nd ! k \<or> d ! k = Raw"
      using relocate_Inl_nth[OF assms(1), of k] kd ld assms(2) by (simp add: Allocate_def)
    moreover have "?nd ! k = Raw" using False kd ld assms(2) by (simp add: Allocate_def)
    ultimately show ?thesis using s kd False by (auto simp: nth_destroy_at)
  qed
qed

lemma with_buffer_id: "with_buffer v (m_buffer (m_data v)) = v"
  by (simp add: with_buffer_def)

lemma PushBack_fwd_ctor_throws:
  "\<exists>f. PushBack_fwd T cc None v = Threw v f \<and> (\<forall>s\<in>set f. s = Raw)"
  by (auto simp: PushBack_fwd_def Let_def RawMemory_new_def dest: set_Allocate)

lemma EmplaceBack_ctor_throws:
  "\<exists>f. EmplaceBack T None v = Threw v f \<and> (\<forall>s\<in>set f. s = Raw)"
  by (auto simp: EmplaceBack_def Let_def RawMemory_new_def dest: set_Allocate)

lemma PushBack_fwd_copy_relocation_throws:
  assumes "\<not> nothrow_move_constructible T" "cc" "PushBack_fwd T cc (Some x) v = Threw v' f"
  shows "v' = v \<and> (\<forall>s\<in>set f. s = Raw)"
proof (cases "Capacity v > m_size v")
  case True
  with assms(3) show ?thesis by (simp add: PushBack_fwd_def)
next
  case False
  let ?c = "max (Capacity v * 2) (m_size v + 1)"
  let ?rel = "relocate T False (m_buffer (m_data v)) (m_size v) ((Allocate ?c)[m_size v := Live x])"
  show ?thesis
  proof (cases ?rel)
    case (Inl p)
    obtain src dst where p: "p = (src, dst)" by (cases p)
    have src: "src = m_buffer (m_data v)" using relocate_copy_Inl_src Inl p by metis
    have "PushBack_fwd T cc (Some x) v = Threw (with_buffer v src) (destroy_n dst (m_size v) 1)"
      using False assms(1,2) Inl p by (simp add: PushBack_fwd_def Let_def RawMemory_new_def)
    with assms(3) src have "v' = v" and f: "f = destroy_n dst (m_size v) 1"
      by (auto simp: with_buffer_id)
    moreover have "\<forall>s\<in>set (destroy_n dst (m_size v) 1). s = Raw"
      using relocate_Inl_raw[of T False _ _ ?c "m_size v" x src dst] Inl p by simp
    ultimately show ?thesis by simp
  next
    case (Inr p)
    with False assms show ?thesis
      by (simp add: PushBack_fwd_def Let_def RawMemory_new_def split: prod.splits)
  qed
qed

lemma EmplaceBack_copy_relocation_throws:
  assumes "\<not> nothrow_move_constructible T" "copy_constructible T"
    "EmplaceBack T (Some x) v = Threw v' f"
  shows "v' = v"
proof (cases "m_size v = Capacity v")
  case False
  with assms(3) show ?thesis by (simp add: EmplaceBack_def Let_def split: if_splits)
next
  case True
  let ?c = "if m_size v = 0 then 1 else m_size v * 2"
  let ?rel = "relocate T False (m_buffer (m_data v)) (m_size v) ((Allocate ?c)[m_size v := Live x])"
  show ?thesis
  proof (cases ?rel)
    case (Inl p)
    obtain src dst where p: "p = (src, dst)" by (cases p)
    have src: "src = m_buffer (m_data v)" using relocate_copy_Inl_src Inl p by metis
    have "EmplaceBack T (Some x) v = Threw (with_buffer v src) dst"
      using True assms(1,2) Inl p by (simp add: EmplaceBack_def Let_def RawMemory_new_def)
    with assms(3) src show ?thesis by (simp add: with_buffer_id)
  next
    case (Inr p)
    with True assms show ?thesis
      by (simp add: EmplaceBack_def Let_def RawMemory_new_def split: prod.splits if_splits)
  qed
qed

lemma EmplaceBack_nothrow:
  assumes "valid v" "nothrow_move_constructible T"
  shows "\<exists>w. EmplaceBack T (Some x) v = Returned w (m_size v)"
proof (cases "m_size v = Capacity v")
  case True
  let ?nd = "RawMemory_new (if m_size v = 0 then 1 else m_size v * 2) :: 'a RawMemory"
  obtain s' d where
    "relocate T (nothrow_move_constructible T \<or> \<not> copy_constructible T) (m_buffer (m_data v))
       (m_size v) ((m_buffer ?nd)[m_size v := Live x]) = Inr (s', d)"
    using relocate_nothrow[OF assms(2)] by blast
  with True show ?thesis
    by (simp add: EmplaceBack_def Let_def RawMemory_new_def RawMemory_Swap_def index_ok_def)
next
  case False
  with assms(1) have "m_size v < m_capacity (m_data v)" by (simp add: valid_def Capacity_def)
  with False show ?thesis
    by (simp add: EmplaceBack_def Let_def index_ok_def with_buffer_def)
qed

text \<open>
  C3, as amended. For \<open>PushBack(U&&)\<close> and \<open>EmplaceBack\<close>: when the constructor of the new
  element throws, the vector is left exactly as it was, whichever way old elements would
  have been relocated, and the block released holds no element (the new element is
  constructed before any old one is touched). When a later relocation throws and the
  relocation is by copy (the move constructor is not \<open>noexcept\<close> and the type consulted by
  \<open>if constexpr\<close> is copy-constructible), the vector is left exactly as it was, and
  \<open>PushBack(U&&)\<close> has destroyed the new element before the block is released. With a
  \<open>noexcept\<close> move constructor nothing after the construction of the new element
  throws: both calls return.
\<close>

theorem forwarding_append_safety:
  "(\<exists>f. PushBack_fwd T cc None v = Threw v f \<and> (\<forall>s\<in>set f. s = Raw))
 \<and> (\<exists>f. EmplaceBack T None v = Threw v f \<and> (\<forall>s\<in>set f. s = Raw))
 \<and> (\<not> nothrow_move_constructible T \<and> cc \<and> PushBack_fwd T cc (Some x) v = Threw v' f \<longrightarrow>
       v' = v \<and> (\<forall>s\<in>set f. s = Raw))
 \<and> (\<not> nothrow_move_constructible T \<and> copy_constructible T
       \<and> EmplaceBack T (Some x) v = Threw v' f \<longrightarrow> v' = v)
 \<and> (nothrow_move_constructible T \<longrightarrow> (\<exists>w. PushBack_fwd T cc (Some x) v = Returned w ()))
 \<and> (nothrow_move_constructible T \<and> valid v \<longrightarrow>
       (\<exists>w. EmplaceBack T (Some x) v = Returned w (m_size v)))"
  using PushBack_fwd_ctor_throws[of T cc v] EmplaceBack_ctor_throws[of T v]
    PushBack_fwd_copy_relocation_throws[of T cc x v v' f]
    EmplaceBack_copy_relocation_throws[of T x v v' f]
    PushBack_fwd_nothrow[of T cc x v] EmplaceBack_nothrow[of v T x]
  by blast

theorem forwarding_append_safety_witness:
  "\<not> nothrow_move_constructible throwing_copy_element
   \<and> copy_constructible throwing_copy_element
   \<and> PushBack_fwd throwing_copy_element True (Some 3) (vector_of [1, 2] 2)
       = Threw (vector_of [1, 2] 2) [Raw, Raw, Raw, Raw]
   \<and> EmplaceBack throwing_copy_element (Some 3) (vector_of [1, 2] 2)
       = Threw (vector_of [1, 2] 2) [Raw, Raw, Live 3, Raw]
   \<and> PushBack_fwd throwing_copy_element True None (vector_of [1, 2] 2)
       = Threw (vector_of [1, 2] 2) [Raw, Raw, Raw, Raw]
   \<and> nothrow_move_constructible int_element \<and> valid (vector_of [1 :: int, 2] 2)
   \<and> PushBack_fwd int_element True (Some 3) (vector_of [1, 2] 2) = Returned (vector_of [1, 2, 3] 4) ()
   \<and> EmplaceBack int_element (Some 3) (vector_of [1, 2] 2) = Returned (vector_of [1, 2, 3] 4) 2"
proof -
  let ?v = "vector_of [1 :: int, 2] 2"
  have t: "\<not> nothrow_move_constructible throwing_copy_element"
    "copy_constructible throwing_copy_element"
    by (simp_all add: throwing_copy_element_def)
  have p: "PushBack_fwd throwing_copy_element True (Some 3) ?v = Threw ?v [Raw, Raw, Raw, Raw]"
    by code_simp
  have e: "EmplaceBack throwing_copy_element (Some 3) ?v = Threw ?v [Raw, Raw, Live 3, Raw]"
    by code_simp
  have n: "PushBack_fwd throwing_copy_element True None ?v = Threw ?v [Raw, Raw, Raw, Raw]"
    by code_simp
  have i: "nothrow_move_constructible int_element" "valid ?v"
    by (simp_all add: int_element_def valid_def vector_of_def)
  have r: "PushBack_fwd int_element True (Some 3) ?v = Returned (vector_of [1, 2, 3] 4) ()"
    "EmplaceBack int_element (Some 3) ?v = Returned (vector_of [1, 2, 3] 4) 2"
    by code_simp+
  note a = forwarding_append_safety[of throwing_copy_element True ?v 3 ?v "[Raw, Raw, Raw, Raw]"]
  note b = forwarding_append_safety[of throwing_copy_element True ?v 3 ?v "[Raw, Raw, Live 3, Raw]"]
  note c = forwarding_append_safety[of int_element True ?v 3 ?v "[]"]
  from a b c t p e n i r show ?thesis by simp
qed

text \<open>
  C3 as stated fails when old elements are relocated by a move constructor that can throw
  (a move-only element type): pushing 3 onto the full vector [1, 2] moves the first
  element, the move of the second throws, and the call leaves [0, 2] behind, the first
  element being moved-from.
\<close>

theorem relocation_by_throwing_move_changes_array:
  "PushBack_fwd throwing_move_element False (Some 3) (vector_of [1, 2] 2)
     = Threw (vector_of [0, 2] 2) [Raw, Raw, Raw, Raw]
   \<and> elements (vector_of [0 :: int, 2] 2) \<noteq> elements (vector_of [1, 2] 2)"
  by (simp add: PushBack_fwd_def vector_of_def throwing_move_element_def Capacity_def
      RawMemory_new_def Allocate_def relocate_def eval_nat_numeral move_construct_def slot_at_def
      destroy_at_def with_buffer_def elements_def)

text \<open>
  The two forwarding appends differ when a copy throws during relocation: \<open>EmplaceBack\<close> has
  no \<open>try\<close> block, so the block is released with the new element still constructed in it;
  \<open>PushBack(U&&)\<close> destroys it first.
\<close>

lemma EmplaceBack_relocation_throw_keeps_new_element:
  "EmplaceBack throwing_copy_element (Some 3) (vector_of [1, 2] 2)
     = Threw (vector_of [1, 2] 2) [Raw, Raw, Live 3, Raw]
   \<and> PushBack_fwd throwing_copy_element True (Some 3) (vector_of [1, 2] 2)
     = Threw (vector_of [1, 2] 2) [Raw, Raw, Raw, Raw]"
  by (simp add: EmplaceBack_def PushBack_fwd_def vector_of_def throwing_copy_element_def
      Capacity_def RawMemory_new_def Allocate_def relocate_def eval_nat_numeral
      copy_construct_def slot_at_def destroy_at_def with_buffer_def)

section \<open>Erase\<close>

lemma move_assign_slot_Some: "move_assign_slot T s = Some (s', r) \<Longrightarrow> s' = s"
  by (auto simp: move_assign_slot_def split: slot.splits if_splits)

lemma std_move_length:
  "std_move T buf first n d = Inr b \<Longrightarrow> length b = length buf"
  "std_move T buf first n d = Inl b' \<Longrightarrow> length b' = length buf"
  by (induction n arbitrary: buf first d) (auto split: option.splits prod.splits)

lemma std_move_shift:
  "std_move T buf (Suc d) n d = Inr b \<Longrightarrow> Suc d + n \<le> length buf \<Longrightarrow>
   (\<forall>k<d. b ! k = buf ! k) \<and> (\<forall>m<n. b ! (d + m) = buf ! (Suc d + m))
   \<and> (\<forall>k\<ge>Suc d + n. b ! k = buf ! k)"
proof (induction n arbitrary: buf d)
  case 0
  then show ?case by simp
next
  case (Suc n)
  from Suc.prems(1) obtain s r where
    sr: "move_assign_slot T (slot_at buf (Suc d)) = Some (s, r)" and
    rec: "std_move T (buf[d := s, Suc d := r]) (Suc (Suc d)) n (Suc d) = Inr b"
    by (auto split: option.splits prod.splits)
  let ?buf' = "buf[d := s, Suc d := r]"
  have s: "s = buf ! Suc d"
    using move_assign_slot_Some[OF sr] Suc.prems(2) by (simp add: slot_at_def)
  have "Suc (Suc d) + n \<le> length ?buf'" using Suc.prems(2) by simp
  from Suc.IH[OF rec this] have
    a: "\<forall>k<Suc d. b ! k = ?buf' ! k" and
    m: "\<forall>m<n. b ! (Suc d + m) = ?buf' ! (Suc (Suc d) + m)" and
    z: "\<forall>k\<ge>Suc (Suc d) + n. b ! k = ?buf' ! k" by simp_all
  have 1: "\<forall>k<d. b ! k = buf ! k" using a by simp
  have 2: "\<forall>m<Suc n. b ! (d + m) = buf ! (Suc d + m)"
  proof (intro allI impI)
    fix j assume j: "j < Suc n"
    show "b ! (d + j) = buf ! (Suc d + j)"
    proof (cases j)
      case 0
      have "b ! d = ?buf' ! d" using a by simp
      with 0 s Suc.prems(2) show ?thesis by simp
    next
      case (Suc j')
      with j m have "b ! (Suc d + j') = ?buf' ! (Suc (Suc d) + j')" by simp
      with Suc show ?thesis by simp
    qed
  qed
  have 3: "\<forall>k\<ge>Suc d + Suc n. b ! k = buf ! k" using z by simp
  from 1 2 3 show ?case by blast
qed

lemma Erase_Returned:
  assumes "valid v" "Erase T pos v = Returned v' r"
  shows "r = pos \<and> pos < m_size v \<and> m_size v' = m_size v - 1 \<and> Capacity v' = Capacity v
     \<and> valid v' \<and> elements v' = take pos (elements v) @ drop (Suc pos) (elements v)"
proof -
  let ?n = "m_size v" and ?buf = "m_buffer (m_data v)"
  from assms(2) have pos: "pos < ?n" by (auto simp: Erase_def split: if_splits)
  have len: "?n \<le> length ?buf" and cap: "m_capacity (m_data v) = length ?buf"
    using assms(1) by (simp_all add: valid_def)
  let ?mv = "std_move T ?buf (Suc pos) (?n - Suc pos) pos"
  have "\<exists>b. ?mv = Inr b" using assms(2) pos by (cases ?mv) (auto simp: Erase_def)
  then obtain b where mv: "?mv = Inr b" by blast
  from assms(2) pos mv have
    v': "v' = (with_buffer v (destroy_at b ?n))\<lparr>m_size := ?n - 1\<rparr>" and r: "r = pos"
    by (simp_all add: Erase_def)
  have lb: "length b = length ?buf" using std_move_length(1)[OF mv] .
  have le: "Suc pos + (?n - Suc pos) \<le> length ?buf" using pos len by simp
  note sh = std_move_shift[OF mv le]
  have "take (?n - 1) (destroy_at b ?n) = take pos ?buf @ drop (Suc pos) (take ?n ?buf)"
  proof (rule nth_equalityI)
    show "length (take (?n - 1) (destroy_at b ?n))
            = length (take pos ?buf @ drop (Suc pos) (take ?n ?buf))"
      using lb len pos by simp
    fix k assume "k < length (take (?n - 1) (destroy_at b ?n))"
    then have k: "k < ?n - 1" by simp
    then have kb: "k < length b" using lb len by simp
    have d: "take (?n - 1) (destroy_at b ?n) ! k = b ! k"
      using k kb by (auto simp: nth_destroy_at)
    show "take (?n - 1) (destroy_at b ?n) ! k
            = (take pos ?buf @ drop (Suc pos) (take ?n ?buf)) ! k"
    proof (cases "k < pos")
      case True
      with sh have "b ! k = ?buf ! k" by blast
      with d True len pos show ?thesis by (simp add: nth_append)
    next
      case False
      then have "k - pos < ?n - Suc pos" and kk: "pos + (k - pos) = k" using k by simp_all
      with sh have "b ! (pos + (k - pos)) = ?buf ! (Suc pos + (k - pos))" by blast
      with kk have "b ! k = ?buf ! (Suc k)" using False by simp
      with d False len pos k show ?thesis by (simp add: nth_append)
    qed
  qed
  then have "elements v' = take pos (elements v) @ drop (Suc pos) (elements v)"
    using v' pos by (simp add: elements_def with_buffer_def min_def)
  moreover have "valid v'" using v' assms(1) lb by (auto simp: valid_def with_buffer_def)
  moreover have "Capacity v' = Capacity v" using v' by (simp add: Capacity_def with_buffer_def)
  ultimately show ?thesis using v' r pos by simp
qed

lemma move_assign_slot_residue_live:
  "move_assign_slot T s = Some (s', r) \<Longrightarrow> is_Live s \<Longrightarrow> is_Live r"
  by (auto simp: move_assign_slot_def split: slot.splits if_splits)

lemma std_move_last_live:
  "std_move T buf (Suc d) n d = Inr b \<Longrightarrow> Suc d + n \<le> length buf \<Longrightarrow>
   (\<forall>k. d \<le> k \<and> k < Suc d + n \<longrightarrow> is_Live (buf ! k)) \<Longrightarrow> is_Live (b ! (d + n))"
proof (induction n arbitrary: buf d)
  case 0
  then show ?case by simp
next
  case (Suc n)
  from Suc.prems(1) obtain s r where
    sr: "move_assign_slot T (slot_at buf (Suc d)) = Some (s, r)" and
    rec: "std_move T (buf[d := s, Suc d := r]) (Suc (Suc d)) n (Suc d) = Inr b"
    by (auto split: option.splits prod.splits)
  let ?buf' = "buf[d := s, Suc d := r]"
  have src: "slot_at buf (Suc d) = buf ! Suc d" using Suc.prems(2) by (simp add: slot_at_def)
  have "is_Live (buf ! Suc d)" using Suc.prems(3) by simp
  then have r: "is_Live r" using move_assign_slot_residue_live[OF sr] src by simp
  have "is_Live (b ! (Suc d + n))"
  proof (rule Suc.IH[OF rec])
    show "Suc (Suc d) + n \<le> length ?buf'" using Suc.prems(2) by simp
    show "\<forall>k. Suc d \<le> k \<and> k < Suc (Suc d) + n \<longrightarrow> is_Live (?buf' ! k)"
    proof (intro allI impI)
      fix k assume k: "Suc d \<le> k \<and> k < Suc (Suc d) + n"
      show "is_Live (?buf' ! k)"
      proof (cases "k = Suc d")
        case True
        with r Suc.prems(2) show ?thesis by simp
      next
        case False
        with k have "?buf' ! k = buf ! k" by simp
        with k Suc.prems(3) show ?thesis by simp
      qed
    qed
  qed
  then show ?case by simp
qed

lemma Erase_keeps_vacated_slot:
  assumes "valid v" "live_prefix v" "Erase T pos v = Returned v' r"
  shows "m_size v' = m_size v - 1 \<and> is_Live (m_buffer (m_data v') ! (m_size v - 1))"
proof -
  let ?n = "m_size v" and ?buf = "m_buffer (m_data v)"
  from assms(3) have pos: "pos < ?n" by (auto simp: Erase_def split: if_splits)
  have len: "?n \<le> length ?buf" using assms(1) by (simp add: valid_def)
  let ?mv = "std_move T ?buf (Suc pos) (?n - Suc pos) pos"
  have "\<exists>b. ?mv = Inr b" using assms(3) pos by (cases ?mv) (auto simp: Erase_def)
  then obtain b where mv: "?mv = Inr b" by blast
  from assms(3) pos mv have
    v': "v' = (with_buffer v (destroy_at b ?n))\<lparr>m_size := ?n - 1\<rparr>"
    by (simp add: Erase_def)
  have lb: "length b = length ?buf" using std_move_length(1)[OF mv] .
  have le: "Suc pos + (?n - Suc pos) \<le> length ?buf" using pos len by simp
  have live: "\<forall>k. pos \<le> k \<and> k < Suc pos + (?n - Suc pos) \<longrightarrow> is_Live (?buf ! k)"
    using assms(2) live_prefix_nth[OF assms(1)] pos by simp
  have "is_Live (b ! (pos + (?n - Suc pos)))" using std_move_last_live[OF mv le live] .
  moreover have "pos + (?n - Suc pos) = ?n - 1" using pos by simp
  ultimately have "is_Live (b ! (?n - 1))" by simp
  moreover have "?n - 1 < length b" "?n - 1 \<noteq> ?n" using pos len lb by simp_all
  ultimately show ?thesis using v' by (simp add: with_buffer_def nth_destroy_at)
qed

text \<open>
  C2. \<open>Erase(pos)\<close> on [10, 20, 30], erasing position 1: the elements after \<open>pos\<close> are
  shifted left by move assignment, the size becomes 2, the elements are [10, 30] and the
  position returned is 1, which now holds 30 (lemma \<open>Erase_Returned\<close> has this for every
  valid vector). But \<open>std::destroy_at\<close> is given \<open>data_ + size_\<close>, index 3, so the vacated
  last slot, index 2, is not destroyed: it still holds the moved-from last element (30
  for \<open>int\<close>; 0 for an element type whose moved-from state is 0). Lemma
  \<open>Erase_keeps_vacated_slot\<close> has the same for every valid vector with live elements.
\<close>

theorem Erase_vacated_slot_not_destroyed:
  "Erase int_element 1 (vector_of [10, 20, 30] 3)
     = Returned \<lparr>m_data = \<lparr>m_buffer = [Live 10, Live 30, Live 30], m_capacity = 3\<rparr>,
                 m_size = 2\<rparr> 1
   \<and> Erase throwing_copy_element 1 (vector_of [10, 20, 30] 4)
     = Returned \<lparr>m_data = \<lparr>m_buffer = [Live 10, Live 30, Live 0, Raw], m_capacity = 4\<rparr>,
                 m_size = 2\<rparr> 1"
  by (simp add: Erase_def vector_of_def int_element_def throwing_copy_element_def
      eval_nat_numeral move_assign_slot_def slot_at_def destroy_at_def with_buffer_def)

section \<open>The invariant over sequences of operations\<close>

lemma move_construct_live:
  "move_construct T s = Some (s', r) \<Longrightarrow> is_Live r = is_Live s"
  by (auto simp: move_construct_def split: slot.splits if_splits)

lemma update_live:
  "is_Live r = is_Live (slot_at src i) \<Longrightarrow> k < length src \<Longrightarrow>
   is_Live (src[i := r] ! k) = is_Live (src ! k)"
  by (cases "k = i") (simp_all add: slot_at_def)

lemma uninitialized_move_n_src_live:
  "uninitialized_move_n T src i n dst j = Inr (s', d) \<Longrightarrow> k < length src \<Longrightarrow>
   is_Live (s' ! k) = is_Live (src ! k)"
  "uninitialized_move_n T src i n dst j = Inl (s'', d') \<Longrightarrow> k < length src \<Longrightarrow>
   is_Live (s'' ! k) = is_Live (src ! k)"
proof (induction n arbitrary: src i dst j d d')
  case 0
  { case 1 then show ?case by simp }
  { case 2 then show ?case by simp }
next
  case (Suc n)
  { case 1
    from 1(1) obtain s r where
      mc: "move_construct T (slot_at src i) = Some (s, r)" and
      rec: "uninitialized_move_n T (src[i := r]) (Suc i) n (dst[j := s]) (Suc j) = Inr (s', d)"
      by (auto split: option.splits sum.splits prod.splits)
    have "is_Live (s' ! k) = is_Live (src[i := r] ! k)"
      using Suc.IH(1)[OF rec] 1(2) by simp
    also have "\<dots> = is_Live (src ! k)"
      using update_live[OF move_construct_live[OF mc] 1(2)] .
    finally show ?case . }
  { case 2
    show ?case
    proof (cases "move_construct T (slot_at src i)")
      case None
      with 2 show ?thesis by simp
    next
      case (Some sr)
      obtain s r where sr: "sr = (s, r)" by (cases sr)
      with Some 2(1) obtain d0 where
        rec: "uninitialized_move_n T (src[i := r]) (Suc i) n (dst[j := s]) (Suc j) = Inl (s'', d0)"
        by (auto split: sum.splits prod.splits)
      have "is_Live (s'' ! k) = is_Live (src[i := r] ! k)"
        using Suc.IH(2)[OF rec] 2(2) by simp
      also have "\<dots> = is_Live (src ! k)"
        using update_live[OF move_construct_live[of T "slot_at src i" s r] 2(2)] Some sr
        by simp
      finally show ?thesis .
    qed }
qed

lemma relocate_Inl_src_live:
  "relocate T by_move src n dst = Inl (s', d) \<Longrightarrow> k < length src \<Longrightarrow>
   is_Live (s' ! k) = is_Live (src ! k)"
  using uninitialized_move_n_src_live(2)[of T src 0 n dst 0 s' d k]
  by (auto simp: relocate_def split: if_splits sum.splits)

lemma with_buffer_live:
  assumes "valid v" "live_prefix v" "length b = length (m_buffer (m_data v))"
    "\<And>k. k < m_size v \<Longrightarrow> is_Live (b ! k) = is_Live (m_buffer (m_data v) ! k)"
  shows "valid (with_buffer v b) \<and> live_prefix (with_buffer v b)"
proof -
  have val: "valid (with_buffer v b)" using assms(1,3) by (simp add: valid_def with_buffer_def)
  have "\<forall>k<m_size v. is_Live (b ! k)"
    using assms(2,4) live_prefix_nth[OF assms(1)] by simp
  then have "live_prefix (with_buffer v b)"
    using live_prefix_nth[OF val] by (simp add: with_buffer_def)
  with val show ?thesis ..
qed

lemma relocate_Inl_invariant:
  assumes "valid v" "live_prefix v"
    "relocate T by_move (m_buffer (m_data v)) n dst = Inl (src, d)"
  shows "valid (with_buffer v src) \<and> live_prefix (with_buffer v src)"
proof (rule with_buffer_live[OF assms(1,2)])
  show "length src = length (m_buffer (m_data v))"
    using relocate_length(2)[OF assms(3)] by simp
  fix k assume "k < m_size v"
  then have "k < length (m_buffer (m_data v))" using assms(1) by (simp add: valid_def)
  then show "is_Live (src ! k) = is_Live (m_buffer (m_data v) ! k)"
    using relocate_Inl_src_live[OF assms(3)] by simp
qed

lemma append_live:
  assumes "valid v" "live_prefix v" "valid v'" "m_size v' = m_size v + 1"
    "take (m_size v) (m_buffer (m_data v')) = take (m_size v) (m_buffer (m_data v))"
    "m_buffer (m_data v') ! m_size v = Live x"
  shows "live_prefix v'"
proof -
  have "\<forall>k<m_size v'. is_Live (m_buffer (m_data v') ! k)"
  proof (intro allI impI)
    fix k assume k: "k < m_size v'"
    show "is_Live (m_buffer (m_data v') ! k)"
    proof (cases "k = m_size v")
      case True
      with assms(6) show ?thesis by simp
    next
      case False
      with k assms(4) have lt: "k < m_size v" by simp
      have "m_buffer (m_data v') ! k = take (m_size v) (m_buffer (m_data v')) ! k"
        using lt by simp
      also have "\<dots> = m_buffer (m_data v) ! k" using assms(5) lt by simp
      finally show ?thesis using assms(2) lt live_prefix_nth[OF assms(1)] by simp
    qed
  qed
  then show ?thesis using live_prefix_nth[OF assms(3)] by simp
qed

lemma PushBack_copy_Threw_shape:
  assumes "PushBack_copy T x v = Threw v' f"
  shows "v' = v \<or> (\<exists>by_move n dst src d.
           relocate T by_move (m_buffer (m_data v)) n dst = Inl (src, d) \<and> v' = with_buffer v src)"
proof (cases "m_size v = Capacity v")
  case False
  with assms have "v' = v"
    by (auto simp: PushBack_copy_def split: if_splits option.splits)
  then show ?thesis by simp
next
  case True
  let ?nd = "RawMemory_new (if m_size v = 0 then 1 else m_size v * 2) :: 'a RawMemory"
  show ?thesis
  proof (cases "copy_assign_slot T (Live x)")
    case None
    with assms True have "v' = v"
      by (auto simp: PushBack_copy_def Let_def split: if_splits)
    then show ?thesis by simp
  next
    case (Some s)
    let ?rel = "relocate T (nothrow_move_constructible T \<or> \<not> copy_constructible T)
                  (m_buffer (m_data v)) (m_size v) ((m_buffer ?nd)[m_size v := s])"
    have ok: "index_ok ?nd (m_size v)" by (simp add: index_ok_def RawMemory_new_def)
    show ?thesis
    proof (cases ?rel)
      case (Inl p)
      obtain src dst where p: "p = (src, dst)" by (cases p)
      with Inl assms True Some ok have "v' = with_buffer v src"
        by (simp add: PushBack_copy_def Let_def)
      with Inl p show ?thesis by blast
    next
      case (Inr p)
      with assms True Some ok show ?thesis
        by (simp add: PushBack_copy_def Let_def split: prod.splits)
    qed
  qed
qed

lemma PushBack_fwd_Threw_shape:
  assumes "PushBack_fwd T cc ctor v = Threw v' f"
  shows "v' = v \<or> (\<exists>by_move n dst src d.
           relocate T by_move (m_buffer (m_data v)) n dst = Inl (src, d) \<and> v' = with_buffer v src)"
proof (cases ctor)
  case None
  with assms have "v' = v"
    by (auto simp: PushBack_fwd_def Let_def split: if_splits)
  then show ?thesis by simp
next
  case (Some x)
  show ?thesis
  proof (cases "Capacity v > m_size v")
    case True
    with assms Some show ?thesis by (simp add: PushBack_fwd_def)
  next
    case False
    let ?nd = "RawMemory_new (max (Capacity v * 2) (m_size v + 1)) :: 'a RawMemory"
    let ?rel = "relocate T (nothrow_move_constructible T \<or> \<not> cc)
                  (m_buffer (m_data v)) (m_size v) ((m_buffer ?nd)[m_size v := Live x])"
    show ?thesis
    proof (cases ?rel)
      case (Inl p)
      obtain src dst where p: "p = (src, dst)" by (cases p)
      with Inl assms False Some have "v' = with_buffer v src"
        by (simp add: PushBack_fwd_def Let_def)
      with Inl p show ?thesis by blast
    next
      case (Inr p)
      with assms False Some show ?thesis
        by (simp add: PushBack_fwd_def Let_def split: prod.splits)
    qed
  qed
qed

lemma EmplaceBack_Threw_shape:
  assumes "EmplaceBack T ctor v = Threw v' f"
  shows "v' = v \<or> (\<exists>by_move n dst src d.
           relocate T by_move (m_buffer (m_data v)) n dst = Inl (src, d) \<and> v' = with_buffer v src)"
proof (cases ctor)
  case None
  with assms have "v' = v"
    by (auto simp: EmplaceBack_def Let_def split: if_splits)
  then show ?thesis by simp
next
  case (Some x)
  show ?thesis
  proof (cases "m_size v = Capacity v")
    case False
    with assms Some show ?thesis by (simp add: EmplaceBack_def Let_def split: if_splits)
  next
    case True
    let ?nd = "RawMemory_new (if m_size v = 0 then 1 else m_size v * 2) :: 'a RawMemory"
    let ?rel = "relocate T (nothrow_move_constructible T \<or> \<not> copy_constructible T)
                  (m_buffer (m_data v)) (m_size v) ((m_buffer ?nd)[m_size v := Live x])"
    show ?thesis
    proof (cases ?rel)
      case (Inl p)
      obtain src dst where p: "p = (src, dst)" by (cases p)
      with Inl assms True Some have "v' = with_buffer v src"
        by (simp add: EmplaceBack_def Let_def)
      with Inl p show ?thesis by blast
    next
      case (Inr p)
      with assms True Some show ?thesis
        by (simp add: EmplaceBack_def Let_def split: prod.splits if_splits)
    qed
  qed
qed

lemma Reserve_Threw_shape:
  assumes "Reserve T n v = Threw v' f"
  shows "v' = v \<or> (\<exists>by_move k dst src d.
           relocate T by_move (m_buffer (m_data v)) k dst = Inl (src, d) \<and> v' = with_buffer v src)"
proof (cases "n > Capacity v")
  case False
  with assms show ?thesis by (simp add: Reserve_def)
next
  case True
  show ?thesis
  proof (cases "RawMemory_requested T n")
    case None
    with assms True have "v' = v" by (simp add: Reserve_def)
    then show ?thesis by simp
  next
    case (Some nd)
    let ?rel = "relocate T (nothrow_move_constructible T \<or> \<not> copy_constructible T)
                  (m_buffer (m_data v)) (m_size v) (m_buffer nd)"
    have fit: "\<not> m_size v > length (m_buffer nd)"
      using assms True Some by (cases "m_size v > length (m_buffer nd)") (simp_all add: Reserve_def)
    show ?thesis
    proof (cases ?rel)
      case (Inl p)
      obtain src dst where p: "p = (src, dst)" by (cases p)
      with Inl assms True Some fit have "v' = with_buffer v src"
        by (simp add: Reserve_def Let_def)
      with Inl p show ?thesis by blast
    next
      case (Inr p)
      with assms True Some fit show ?thesis
        by (simp add: Reserve_def Let_def split: prod.splits)
    qed
  qed
qed

lemma Threw_shape_invariant:
  assumes "valid v" "live_prefix v"
    "v' = v \<or> (\<exists>by_move n dst src d.
           relocate T by_move (m_buffer (m_data v)) n dst = Inl (src, d) \<and> v' = with_buffer v src)"
  shows "valid v' \<and> live_prefix v'"
  using assms(3)
proof
  assume "v' = v"
  with assms(1,2) show ?thesis by simp
next
  assume "\<exists>by_move n dst src d.
           relocate T by_move (m_buffer (m_data v)) n dst = Inl (src, d) \<and> v' = with_buffer v src"
  then obtain by_move n dst src d where
    "relocate T by_move (m_buffer (m_data v)) n dst = Inl (src, d)" and "v' = with_buffer v src"
    by blast
  with relocate_Inl_invariant[OF assms(1,2)] show ?thesis by simp
qed

lemma uninitialized_value_construct_n_Inl_outside:
  "uninitialized_value_construct_n T buf first n = Inl b \<Longrightarrow> k < first \<Longrightarrow> b ! k = buf ! k"
proof (induction n arbitrary: buf first b)
  case 0
  then show ?case by simp
next
  case (Suc n)
  show ?case
  proof (cases "value_init T")
    case None
    with Suc.prems show ?thesis by simp
  next
    case (Some d)
    with Suc.prems(1) obtain b0 where
      rec: "uninitialized_value_construct_n T (buf[first := Live d]) (Suc first) n = Inl b0" and
      b: "b = destroy_at b0 first"
      by (auto split: sum.splits)
    have "b0 ! k = buf[first := Live d] ! k" using Suc.IH[OF rec] Suc.prems(2) by simp
    then show ?thesis using b Suc.prems(2) by (simp add: destroy_at_def)
  qed
qed

lemma Resize_invariant:
  assumes "valid v" "live_prefix v" "state_after (Resize T n v) = Some v'"
  shows "valid v' \<and> live_prefix v'"
proof -
  consider "n < m_size v" | "n = m_size v" | "m_size v < n" by linarith
  then show ?thesis
  proof cases
    case 1
    have le: "m_size v \<le> length (m_buffer (m_data v))" using assms(1) by (simp add: valid_def)
    from Resize_shrink[OF assms(1) 1, of T] assms(3) have
      v': "v' = \<lparr>m_data = \<lparr>m_buffer = take n (m_buffer (m_data v)) @ replicate (m_size v - n) Raw
                                     @ drop (m_size v) (m_buffer (m_data v)),
                           m_capacity = m_capacity (m_data v)\<rparr>, m_size = n\<rparr>" by simp
    have "valid v'" using v' assms(1) 1 by (simp add: valid_def)
    moreover have "live_prefix v'"
      using v' assms(2) 1 le
      by (simp add: live_prefix_def list_all_length)
    ultimately show ?thesis ..
  next
    case 2
    with assms show ?thesis by (simp add: Resize_def)
  next
    case 3
    show ?thesis
    proof (cases "Resize T n v")
      case (Returned w u)
      with assms(3) have w: "w = v'" by simp
      from Resize_grow_Returned[OF assms(1) 3 Returned] obtain d where
        val: "valid w" and el: "elements w = elements v @ replicate (n - m_size v) (Live d)"
        by blast
      have "list_all is_Live (elements v @ replicate (n - m_size v) (Live d))"
        using assms(2) by (simp add: live_prefix_elements list_all_length nth_append)
      then have "live_prefix w"
        by (simp only: live_prefix_elements el)
      with val w show ?thesis by simp
    next
      case AssertFailed
      with assms(3) show ?thesis by simp
    next
      case MemoryFault
      with assms(3) show ?thesis by simp
    next
      case (Threw w f)
      with assms(3) have w: "w = v'" by simp
      show ?thesis
      proof (cases "Reserve T n v")
        case (Returned v1 u1)
        have fit: "n \<le> length (m_buffer (m_data v1))"
          using Threw Returned 3
          by (cases "n > length (m_buffer (m_data v1))") (simp_all add: Resize_def)
        from Reserve_Returned[OF assms(1) Returned] have
          s1: "m_size v1 = m_size v" and el1: "elements v1 = elements v"
          by simp_all
        have val1: "valid v1" using Reserve_Returned_valid[OF assms(1) Returned fit] .
        have live1: "live_prefix v1" using el1 assms(2) by (simp add: live_prefix_elements)
        let ?uvc = "uninitialized_value_construct_n T (m_buffer (m_data v1)) (m_size v1)
                      (n - m_size v1)"
        from Threw Returned 3 fit obtain b where uvc: "?uvc = Inl b" and wb: "w = with_buffer v1 b"
          by (cases ?uvc) (auto simp: Resize_def)
        have "valid (with_buffer v1 b) \<and> live_prefix (with_buffer v1 b)"
        proof (rule with_buffer_live[OF val1 live1])
          show "length b = length (m_buffer (m_data v1))"
            using uninitialized_value_construct_n_length(2)[OF uvc] .
          fix k assume "k < m_size v1"
          then show "is_Live (b ! k) = is_Live (m_buffer (m_data v1) ! k)"
            using uninitialized_value_construct_n_Inl_outside[OF uvc, of k] by simp
        qed
        with wb w show ?thesis by simp
      next
        case AssertFailed
        with Threw 3 show ?thesis by (simp add: Resize_def)
      next
        case MemoryFault
        with Threw 3 show ?thesis by (simp add: Resize_def)
      next
        case (Threw v1 f1)
        with \<open>Resize T n v = Threw w f\<close> 3 have "w = v1" by (simp add: Resize_def)
        with w have "v1 = v'" by simp
        moreover have "valid v1 \<and> live_prefix v1"
          using Reserve_Threw_shape[OF Threw] by (rule Threw_shape_invariant[OF assms(1,2)])
        ultimately show ?thesis by simp
      qed
    qed
  qed
qed

lemma move_assign_slot_live:
  "move_assign_slot T s = Some (s', r) \<Longrightarrow> is_Live r = is_Live s \<and> s' = s"
  by (auto simp: move_assign_slot_def split: slot.splits if_splits)

lemma std_move_Inl_live:
  "std_move T buf (Suc d) n d = Inl b \<Longrightarrow> Suc d + n \<le> length buf \<Longrightarrow>
   (\<forall>k. d \<le> k \<and> k < Suc d + n \<longrightarrow> is_Live (buf ! k)) \<Longrightarrow> k < length buf \<Longrightarrow>
   is_Live (b ! k) = is_Live (buf ! k)"
proof (induction n arbitrary: buf d)
  case 0
  then show ?case by simp
next
  case (Suc n)
  show ?case
  proof (cases "move_assign_slot T (slot_at buf (Suc d))")
    case None
    with Suc.prems(1) show ?thesis by simp
  next
    case (Some sr)
    obtain s r where sr: "sr = (s, r)" by (cases sr)
    let ?buf' = "buf[d := s, Suc d := r]"
    from Some sr Suc.prems(1) have
      rec: "std_move T ?buf' (Suc (Suc d)) n (Suc d) = Inl b" by simp
    have src: "slot_at buf (Suc d) = buf ! Suc d" using Suc.prems(2) by (simp add: slot_at_def)
    have s: "s = buf ! Suc d" and r: "is_Live r = is_Live (buf ! Suc d)"
      using move_assign_slot_live[of T "slot_at buf (Suc d)" s r] Some sr src by simp_all
    have live_d: "is_Live (buf ! d)" and live_Sd: "is_Live (buf ! Suc d)"
      using Suc.prems(3) by simp_all
    have same: "is_Live (?buf' ! j) = is_Live (buf ! j)" if "j < length buf" for j
      using that s r live_d live_Sd by (cases "j = Suc d"; cases "j = d") simp_all
    have "is_Live (b ! k) = is_Live (?buf' ! k)"
    proof (rule Suc.IH[OF rec])
      show "Suc (Suc d) + n \<le> length ?buf'" using Suc.prems(2) by simp
      show "\<forall>k. Suc d \<le> k \<and> k < Suc (Suc d) + n \<longrightarrow> is_Live (?buf' ! k)"
        using same Suc.prems(2,3) by simp
      show "k < length ?buf'" using Suc.prems(4) by simp
    qed
    with same[OF Suc.prems(4)] show ?thesis by simp
  qed
qed

lemma Erase_invariant:
  assumes "valid v" "live_prefix v" "state_after (Erase T pos v) = Some v'"
  shows "valid v' \<and> live_prefix v'"
proof (cases "Erase T pos v")
  case (Returned w r)
  with assms(3) have w: "w = v'" by simp
  from Erase_Returned[OF assms(1) Returned] have
    val: "valid w" and el: "elements w = take pos (elements v) @ drop (Suc pos) (elements v)"
    by simp_all
  have "list_all is_Live (elements v)" using assms(2) by (simp add: live_prefix_elements)
  then have "list_all is_Live (take pos (elements v) @ drop (Suc pos) (elements v))"
    by (auto simp: list_all_iff dest: in_set_takeD in_set_dropD)
  then have "live_prefix w" by (simp only: live_prefix_elements el)
  with val w show ?thesis by simp
next
  case AssertFailed
  with assms(3) show ?thesis by simp
next
  case MemoryFault
  with assms(3) show ?thesis by simp
next
  case (Threw w f)
  with assms(3) have w: "w = v'" by simp
  let ?n = "m_size v" and ?buf = "m_buffer (m_data v)"
  from Threw have pos: "pos < ?n" by (auto simp: Erase_def split: if_splits)
  have len: "?n \<le> length ?buf" using assms(1) by (simp add: valid_def)
  let ?mv = "std_move T ?buf (Suc pos) (?n - Suc pos) pos"
  from Threw pos obtain b where mv: "?mv = Inl b" and wb: "w = with_buffer v b"
    by (cases ?mv) (auto simp: Erase_def)
  have le: "Suc pos + (?n - Suc pos) \<le> length ?buf" using pos len by simp
  have live: "\<forall>k. pos \<le> k \<and> k < Suc pos + (?n - Suc pos) \<longrightarrow> is_Live (?buf ! k)"
    using assms(2) live_prefix_nth[OF assms(1)] pos by simp
  have "valid (with_buffer v b) \<and> live_prefix (with_buffer v b)"
  proof (rule with_buffer_live[OF assms(1,2)])
    show "length b = length ?buf" using std_move_length(2)[OF mv] .
    fix k assume "k < ?n"
    then have "k < length ?buf" using len by simp
    from std_move_Inl_live[OF mv le live this]
    show "is_Live (b ! k) = is_Live (?buf ! k)" .
  qed
  with wb w show ?thesis by simp
qed

lemma PopBack_invariant:
  assumes "valid v" "live_prefix v"
  shows "valid (PopBack v) \<and> live_prefix (PopBack v)"
proof (cases "m_size v = 0")
  case True
  with assms show ?thesis by (simp add: PopBack_def)
next
  case False
  let ?w = "PopBack v"
  have w: "?w = (with_buffer v (destroy_at (m_buffer (m_data v)) (m_size v)))\<lparr>m_size := m_size v - 1\<rparr>"
    using False by (simp add: PopBack_def)
  have val: "valid ?w" using assms(1) w by (auto simp: valid_def with_buffer_def)
  have "\<forall>k<m_size ?w. is_Live (m_buffer (m_data ?w) ! k)"
  proof (intro allI impI)
    fix k assume "k < m_size ?w"
    then have k: "k < m_size v - 1" using w by simp
    then have "k < length (m_buffer (m_data v))" using assms(1) by (auto simp: valid_def)
    then have "m_buffer (m_data ?w) ! k = m_buffer (m_data v) ! k"
      using w k by (auto simp: with_buffer_def nth_destroy_at)
    then show "is_Live (m_buffer (m_data ?w) ! k)"
      using assms(2) live_prefix_nth[OF assms(1)] k by simp
  qed
  with val live_prefix_nth[OF val] show ?thesis by simp
qed

lemma Reserve_invariant:
  assumes "valid v" "live_prefix v" "state_after (Reserve T n v) = Some v'"
    "0 < size_of T" "n * size_of T < 2 ^ 64"
  shows "valid v' \<and> live_prefix v'"
proof (cases "Reserve T n v")
  case (Returned w u)
  with assms(3) have w: "w = v'" by simp
  have "valid w" using Reserve_Returned_fits[OF assms(1) Returned assms(4,5)] .
  moreover from Reserve_Returned[OF assms(1) Returned] have "elements w = elements v"
    by simp
  ultimately show ?thesis using assms(2) w by (simp add: live_prefix_elements)
next
  case AssertFailed
  with assms(3) show ?thesis by simp
next
  case MemoryFault
  with assms(3) show ?thesis by simp
next
  case (Threw w f)
  with assms(3) have w: "w = v'" by simp
  have "valid w \<and> live_prefix w"
    using Reserve_Threw_shape[OF Threw] by (rule Threw_shape_invariant[OF assms(1,2)])
  with w show ?thesis by simp
qed

lemma PushBack_copy_invariant:
  assumes "valid v" "live_prefix v" "state_after (PushBack_copy T x v) = Some v'"
  shows "valid v' \<and> live_prefix v'"
proof (cases "PushBack_copy T x v")
  case (Returned w u)
  with assms(3) have w: "w = v'" by simp
  note r = PushBack_copy_Returned[OF assms(1) Returned]
  from append_live[OF assms(1,2) r(2) r(1) r(3) r(4)] r(2) w show ?thesis by simp
next
  case AssertFailed
  with assms(3) show ?thesis by simp
next
  case MemoryFault
  with assms(3) show ?thesis by simp
next
  case (Threw w f)
  with assms(3) have w: "w = v'" by simp
  have "valid w \<and> live_prefix w"
    using PushBack_copy_Threw_shape[OF Threw] by (rule Threw_shape_invariant[OF assms(1,2)])
  with w show ?thesis by simp
qed

lemma PushBack_fwd_invariant:
  assumes "valid v" "live_prefix v" "state_after (PushBack_fwd T cc ctor v) = Some v'"
  shows "valid v' \<and> live_prefix v'"
proof (cases "PushBack_fwd T cc ctor v")
  case (Returned w u)
  with assms(3) have w: "w = v'" by simp
  from PushBack_fwd_Returned[OF assms(1) Returned] obtain x where
    r: "m_size w = m_size v + 1" "valid w"
       "take (m_size v) (m_buffer (m_data w)) = take (m_size v) (m_buffer (m_data v))"
       "m_buffer (m_data w) ! m_size v = Live x"
    by blast
  from append_live[OF assms(1,2) r(2) r(1) r(3) r(4)] r(2) w show ?thesis by simp
next
  case AssertFailed
  with assms(3) show ?thesis by simp
next
  case MemoryFault
  with assms(3) show ?thesis by simp
next
  case (Threw w f)
  with assms(3) have w: "w = v'" by simp
  have "valid w \<and> live_prefix w"
    using PushBack_fwd_Threw_shape[OF Threw] by (rule Threw_shape_invariant[OF assms(1,2)])
  with w show ?thesis by simp
qed

lemma EmplaceBack_invariant:
  assumes "valid v" "live_prefix v" "state_after (EmplaceBack T ctor v) = Some v'"
  shows "valid v' \<and> live_prefix v'"
proof (cases "EmplaceBack T ctor v")
  case (Returned w u)
  with assms(3) have w: "w = v'" by simp
  from EmplaceBack_Returned[OF assms(1) Returned] obtain x where
    r: "m_size w = m_size v + 1" "valid w"
       "take (m_size v) (m_buffer (m_data w)) = take (m_size v) (m_buffer (m_data v))"
       "m_buffer (m_data w) ! m_size v = Live x"
    by blast
  from append_live[OF assms(1,2) r(2) r(1) r(3) r(4)] r(2) w show ?thesis by simp
next
  case AssertFailed
  with assms(3) show ?thesis by simp
next
  case MemoryFault
  with assms(3) show ?thesis by simp
next
  case (Threw w f)
  with assms(3) have w: "w = v'" by simp
  have "valid w \<and> live_prefix w"
    using EmplaceBack_Threw_shape[OF Threw] by (rule Threw_shape_invariant[OF assms(1,2)])
  with w show ?thesis by simp
qed

lemma apply_operation_invariant:
  assumes "valid v" "live_prefix v" "apply_operation T op v = Some v'" "request_fits T op"
  shows "valid v' \<and> live_prefix v'"
proof (cases op)
  case (OpReserve n)
  with assms(3,4) Reserve_invariant[OF assms(1,2), of T n v'] show ?thesis by simp
next
  case (OpResize n)
  with assms(3) Resize_invariant[OF assms(1,2)] show ?thesis by simp
next
  case (OpPushBack_copy x)
  with assms(3) PushBack_copy_invariant[OF assms(1,2)] show ?thesis by simp
next
  case (OpPushBack_fwd cc ctor)
  with assms(3) PushBack_fwd_invariant[OF assms(1,2)] show ?thesis by simp
next
  case (OpEmplaceBack ctor)
  with assms(3) EmplaceBack_invariant[OF assms(1,2)] show ?thesis by simp
next
  case OpPopBack
  with assms(3) PopBack_invariant[OF assms(1,2)] show ?thesis by auto
next
  case (OpErase pos)
  with assms(3) Erase_invariant[OF assms(1,2)] show ?thesis by simp
qed

lemma run_invariant:
  "valid v \<Longrightarrow> live_prefix v \<Longrightarrow> run T ops v = Some v' \<Longrightarrow>
   list_all (request_fits T) ops \<Longrightarrow> valid v' \<and> live_prefix v'"
proof (induction ops arbitrary: v)
  case Nil
  then show ?case by simp
next
  case (Cons op ops)
  from Cons.prems(3) obtain w where
    step: "apply_operation T op v = Some w" and rest: "run T ops w = Some v'"
    by (auto split: option.splits)
  from Cons.prems(4) have fits: "request_fits T op" and fits': "list_all (request_fits T) ops"
    by simp_all
  from apply_operation_invariant[OF Cons.prems(1,2) step fits] have "valid w" "live_prefix w"
    by simp_all
  from Cons.IH[OF this rest fits'] show ?case .
qed

lemma reachable_invariant:
  assumes "run T ops Vector_default = Some v" "list_all (request_fits T) ops"
  shows "valid v \<and> live_prefix v"
proof (rule run_invariant[OF _ _ assms])
  show "valid (Vector_default :: 'a Vector)"
    by (simp add: valid_def Vector_default_def RawMemory_default_def)
  show "live_prefix (Vector_default :: 'a Vector)"
    by (simp add: live_prefix_def Vector_default_def RawMemory_default_def)
qed

text \<open>
  C4. Every state reached from a default-constructed vector by \<open>Reserve\<close>, \<open>Resize\<close>,
  the appends, \<open>PopBack\<close> and \<open>Erase\<close>, whether the calls return or throw, is valid
  (\<open>size \<le> capacity\<close>) and has live elements in the slots \<open>[0, size)\<close>, as long as no
  \<open>Reserve\<close> asks for a number of bytes that wraps \<open>size_t\<close> (lemma
  \<open>reachable_invariant\<close>). The third part fails: after \<open>PushBack(7)\<close> and
  \<open>PopBack()\<close> on an empty \<open>Vector<int>\<close> the size is 0, the capacity is 1 and slot 0, which
  lies in \<open>[size, capacity)\<close>, still holds the live element 7; after \<open>Resize(3)\<close> and
  \<open>Erase(begin())\<close> slot 2 still holds a live element while the size is 2.
\<close>

theorem live_slot_past_size_is_reachable:
  "run int_element [OpPushBack_copy 7, OpPopBack] Vector_default
     = Some \<lparr>m_data = \<lparr>m_buffer = [Live 7], m_capacity = 1\<rparr>, m_size = 0\<rparr>
   \<and> \<not> raw_suffix \<lparr>m_data = \<lparr>m_buffer = [Live (7 :: int)], m_capacity = 1\<rparr>, m_size = 0\<rparr>
   \<and> run int_element [OpResize 3, OpErase 0] Vector_default
     = Some \<lparr>m_data = \<lparr>m_buffer = [Live 0, Live 0, Live 0], m_capacity = 3\<rparr>, m_size = 2\<rparr>
   \<and> \<not> raw_suffix \<lparr>m_data = \<lparr>m_buffer = [Live (0 :: int), Live 0, Live 0], m_capacity = 3\<rparr>,
                      m_size = 2\<rparr>"
proof -
  have 1: "run int_element [OpPushBack_copy 7, OpPopBack] Vector_default
     = Some \<lparr>m_data = \<lparr>m_buffer = [Live 7], m_capacity = 1\<rparr>, m_size = 0\<rparr>"
    by code_simp
  have r: "Resize int_element 3 Vector_default = Returned (vector_of [0, 0, 0] 3) ()"
    by (simp add: Resize_def Reserve_def RawMemory_requested_def Allocate_requested_small
        Vector_default_def RawMemory_default_def vector_of_def int_element_def Capacity_def
        relocate_def eval_nat_numeral DestroyN_def RawMemory_Swap_def with_buffer_def)
  have e: "Erase int_element 0 (vector_of [0, 0, 0] 3)
     = Returned \<lparr>m_data = \<lparr>m_buffer = [Live 0, Live 0, Live 0], m_capacity = 3\<rparr>, m_size = 2\<rparr> 0"
    by code_simp
  have 2: "run int_element [OpResize 3, OpErase 0] Vector_default
     = Some \<lparr>m_data = \<lparr>m_buffer = [Live 0, Live 0, Live 0], m_capacity = 3\<rparr>, m_size = 2\<rparr>"
    using r e by simp
  show ?thesis using 1 2 by (simp add: raw_suffix_def eval_nat_numeral)
qed

end
